theory Spec2Isabelle
  imports Complex_Main "HOL-Library.Sublist"
begin

text \<open>
  A shallow embedding of the semantic tools of the server: the helper functions
  \<open>getAXString\<close>, \<open>extractAttributes\<close>, \<open>generateSID\<close>, \<open>extractTextSnippet\<close> and
  \<open>getElementBounds\<close>, and the handlers of the tools \<open>sem_snapshot\<close> and \<open>sem_query\<close> with
  their recursive walks \<open>processNode\<close> and \<open>searchNode\<close>. The arrays that the walks fill are
  passed along as state, an exception is a value, and what the handlers take from
  libraries (the digest, the path join, the locale comparison, the random token) is a
  parameter. The handlers print their result as lines of text; the model returns the
  object that is printed.
\<close>

section \<open>JavaScript values used by the semantic tools\<close>

text \<open>
  A JavaScript string is a sequence of UTF-16 code units, and \<open>length\<close> and \<open>slice\<close> count
  code units. A \<open>char\<close> of the model stands for one code unit, and the model covers the
  strings whose code units are all below 256 (Latin-1): on these, the length, the
  slices, the lower-casing and the white-space test below are those of JavaScript. Text
  with a code unit above 255 is outside the model.
\<close>

definition isWhiteSpace :: "char \<Rightarrow> bool" where
  "isWhiteSpace c =
     (c = CHR 0x09 \<or> c = CHR 0x0A \<or> c = CHR 0x0B \<or> c = CHR 0x0C \<or> c = CHR 0x0D \<or>
      c = CHR 0x20 \<or> c = CHR 0xA0)"

text \<open>
  The upper-case letters among the code units below 256, and their lower-case forms:
  \<open>A\<close> to \<open>Z\<close>, and the letters \<open>C0\<close> to \<open>DE\<close> without the sign \<open>D7\<close>.
\<close>

definition upperLetters :: string where
  "upperLetters =
     ''ABCDEFGHIJKLMNOPQRSTUVWXYZ'' @
     [CHR 0xC0, CHR 0xC1, CHR 0xC2, CHR 0xC3, CHR 0xC4, CHR 0xC5, CHR 0xC6, CHR 0xC7,
      CHR 0xC8, CHR 0xC9, CHR 0xCA, CHR 0xCB, CHR 0xCC, CHR 0xCD, CHR 0xCE, CHR 0xCF,
      CHR 0xD0, CHR 0xD1, CHR 0xD2, CHR 0xD3, CHR 0xD4, CHR 0xD5, CHR 0xD6, CHR 0xD8,
      CHR 0xD9, CHR 0xDA, CHR 0xDB, CHR 0xDC, CHR 0xDD, CHR 0xDE]"

definition lowerLetters :: string where
  "lowerLetters =
     ''abcdefghijklmnopqrstuvwxyz'' @
     [CHR 0xE0, CHR 0xE1, CHR 0xE2, CHR 0xE3, CHR 0xE4, CHR 0xE5, CHR 0xE6, CHR 0xE7,
      CHR 0xE8, CHR 0xE9, CHR 0xEA, CHR 0xEB, CHR 0xEC, CHR 0xED, CHR 0xEE, CHR 0xEF,
      CHR 0xF0, CHR 0xF1, CHR 0xF2, CHR 0xF3, CHR 0xF4, CHR 0xF5, CHR 0xF6, CHR 0xF8,
      CHR 0xF9, CHR 0xFA, CHR 0xFB, CHR 0xFC, CHR 0xFD, CHR 0xFE]"

definition toLowerChar :: "char \<Rightarrow> char" where
  "toLowerChar c =
     (case map_of (zip upperLetters lowerLetters) c of
        Some l \<Rightarrow> l
      | None \<Rightarrow> c)"

definition toLowerCase :: "string \<Rightarrow> string" where
  "toLowerCase s = map toLowerChar s"

definition trim :: "string \<Rightarrow> string" where
  "trim s = rev (dropWhile isWhiteSpace (rev (dropWhile isWhiteSpace s)))"

text \<open>\<open>s.replace(/\s+/g, ' ')\<close>: every maximal run of white space becomes one space.\<close>

fun collapseWhiteSpace :: "string \<Rightarrow> string" where
  "collapseWhiteSpace [] = []"
| "collapseWhiteSpace [c] = [if isWhiteSpace c then CHR '' '' else c]"
| "collapseWhiteSpace (c # d # cs) =
     (if isWhiteSpace c then
        (if isWhiteSpace d then collapseWhiteSpace (d # cs)
         else CHR '' '' # collapseWhiteSpace (d # cs))
      else c # collapseWhiteSpace (d # cs))"

text \<open>\<open>s.includes(sub)\<close>: \<open>sub\<close> occurs in \<open>s\<close> as a contiguous block.\<close>

fun js_includes :: "string \<Rightarrow> string \<Rightarrow> bool" where
  "js_includes [] sub = (sub = [])"
| "js_includes (c # cs) sub = (prefix sub (c # cs) \<or> js_includes cs sub)"

text \<open>\<open>parts.join(sep)\<close>.\<close>

fun join :: "string \<Rightarrow> string list \<Rightarrow> string" where
  "join sep [] = []"
| "join sep [s] = s"
| "join sep (s # t # ss) = s @ sep @ join sep (t # ss)"

text \<open>A string is truthy when it is not empty.\<close>

definition truthy :: "string \<Rightarrow> bool" where
  "truthy s = (s \<noteq> [])"

text \<open>
  An optional string parameter (\<open>z.string().optional()\<close>) is truthy when it is present
  and not empty.
\<close>

definition given :: "string option \<Rightarrow> bool" where
  "given p = (case p of None \<Rightarrow> False | Some s \<Rightarrow> truthy s)"

subsection \<open>Numbers: integers and NaN\<close>

text \<open>
  The numbers of the pagination code are integers or \<open>NaN\<close>. The model keeps integers
  exact; a JavaScript number is exact up to \<open>2^53\<close>, and cursors beyond that are outside
  the model.
\<close>

datatype js_number = NaN | Num int

definition digitChar :: "nat \<Rightarrow> char" where
  "digitChar d = ''0123456789'' ! d"

definition isDigit :: "char \<Rightarrow> bool" where
  "isDigit c = (c \<in> set ''0123456789'')"

definition digitValue :: "char \<Rightarrow> nat" where
  "digitValue c = (case map_of (zip ''0123456789'' [0, 1, 2, 3, 4, 5, 6, 7, 8, 9]) c of Some d \<Rightarrow> d | None \<Rightarrow> 0)"

text \<open>The decimal digits of a natural number, as \<open>String(i)\<close> and \<open>`${i}`\<close> print it.\<close>

fun digits :: "nat \<Rightarrow> string" where
  "digits n = (if n < 10 then [digitChar n] else digits (n div 10) @ [digitChar (n mod 10)])"

declare digits.simps [simp del]

definition digitsValue :: "string \<Rightarrow> nat" where
  "digitsValue ds = foldl (\<lambda>acc c. acc * 10 + digitValue c) 0 ds"

text \<open>\<open>n.toString()\<close>.\<close>

definition toString :: "js_number \<Rightarrow> string" where
  "toString n =
     (case n of
        NaN \<Rightarrow> ''NaN''
      | Num i \<Rightarrow> if i < 0 then CHR ''-'' # digits (nat (- i)) else digits (nat i))"

text \<open>
  \<open>parseInt(s, 10)\<close>: leading white space is skipped, one sign is read, then the longest
  run of decimal digits; without a digit the result is \<open>NaN\<close>. It never throws.
\<close>

definition parseInt :: "string \<Rightarrow> js_number" where
  "parseInt s =
     (let t = dropWhile isWhiteSpace s;
          negative = (t \<noteq> [] \<and> hd t = CHR ''-'');
          u = (if t \<noteq> [] \<and> (hd t = CHR ''-'' \<or> hd t = CHR ''+'') then tl t else t);
          ds = takeWhile isDigit u
      in if ds = [] then NaN
         else if negative then Num (- int (digitsValue ds))
         else Num (int (digitsValue ds)))"

definition js_add :: "js_number \<Rightarrow> js_number \<Rightarrow> js_number" where
  "js_add a b = (case (a, b) of (Num i, Num j) \<Rightarrow> Num (i + j) | _ \<Rightarrow> NaN)"

text \<open>\<open>Math.min(a, b)\<close> is \<open>NaN\<close> as soon as one argument is.\<close>

definition js_min :: "js_number \<Rightarrow> js_number \<Rightarrow> js_number" where
  "js_min a b = (case (a, b) of (Num i, Num j) \<Rightarrow> Num (min i j) | _ \<Rightarrow> NaN)"

text \<open>\<open>a < b\<close> is false as soon as one operand is \<open>NaN\<close>.\<close>

definition js_less :: "js_number \<Rightarrow> js_number \<Rightarrow> bool" where
  "js_less a b = (case (a, b) of (Num i, Num j) \<Rightarrow> i < j | _ \<Rightarrow> False)"

text \<open>
  The index that \<open>Array.prototype.slice\<close> makes of an argument: \<open>NaN\<close> counts as 0, a
  negative number counts from the end, and the result is clamped to the array.
\<close>

definition sliceIndex :: "nat \<Rightarrow> js_number \<Rightarrow> nat" where
  "sliceIndex len n =
     (case n of
        NaN \<Rightarrow> 0
      | Num i \<Rightarrow> if i < 0 then nat (max (int len + i) 0) else nat (min i (int len)))"

definition slice :: "'a list \<Rightarrow> js_number \<Rightarrow> js_number \<Rightarrow> 'a list" where
  "slice xs start end' =
     (let k = sliceIndex (length xs) start;
          final = sliceIndex (length xs) end'
      in take (final - k) (drop k xs))"

text \<open>\<open>Math.round(x)\<close> rounds half up.\<close>

definition js_round :: "rat \<Rightarrow> int" where
  "js_round q = \<lfloor>q + 1 / 2\<rfloor>"


section \<open>The accessibility tree\<close>

text \<open>
  A field of a serialized accessibility node as \<open>getAXString\<close> inspects it: missing,
  \<open>null\<close>, a string, a number (kept as the text that \<open>String\<close> prints for it), a boolean,
  or an object, which may have an own field \<open>value\<close>.
\<close>

datatype ax_value =
    AXUndefined
  | AXNull
  | AXString string
  | AXNumber string
  | AXBoolean bool
  | AXObject "ax_value option"

fun getAXString :: "ax_value \<Rightarrow> string" where
  "getAXString AXUndefined = []"
| "getAXString AXNull = []"
| "getAXString (AXString s) = s"
| "getAXString (AXNumber s) = s"
| "getAXString (AXBoolean b) = (if b then ''true'' else ''false'')"
| "getAXString (AXObject (Some v)) = getAXString v"
| "getAXString (AXObject None) = []"

text \<open>\<open>String(value)\<close> for a value that is neither missing nor \<open>null\<close>.\<close>

fun js_String :: "ax_value \<Rightarrow> string" where
  "js_String AXUndefined = ''undefined''"
| "js_String AXNull = ''null''"
| "js_String (AXString s) = s"
| "js_String (AXNumber s) = s"
| "js_String (AXBoolean b) = (if b then ''true'' else ''false'')"
| "js_String (AXObject v) = ''[object Object]''"

record SemanticNodeBounds =
  b_x :: int
  b_y :: int
  b_width :: int
  b_height :: int

text \<open>
  The fields of one node. \<open>raw\<close> holds the other own fields of the node object by name
  (the candidates of \<open>extractAttributes\<close> are read from it), \<open>properties\<close> is the array
  \<open>node.properties\<close> as pairs of \<open>name\<close> and \<open>value\<close>, empty when the node has none.
\<close>

text \<open>
  Modelled from the spec: the field \<open>geometry\<close>, the optional bounding geometry that the
  tree provider supplies with a node (spec, sections 1 and 2). The node type of the
  source comes from a library and no function of the source reads such a field.
\<close>

record ax_data =
  role :: ax_value
  name :: ax_value
  description :: ax_value
  val :: ax_value
  raw :: "(string \<times> ax_value) list"
  properties :: "(ax_value \<times> ax_value) list"
  geometry :: "SemanticNodeBounds option"

datatype ax_node = AXNode (data: ax_data) (children: "ax_node list")

text \<open>
  What the tools take from their surroundings: the SHA-256 digest of a string in
  base64url (\<open>crypto.createHash('sha256').update(s).digest('base64url')\<close>),
  \<open>path.posix.join\<close>, \<open>String.prototype.localeCompare\<close>, and the six characters that
  \<open>Math.random().toString(36).substring(2, 8)\<close> yields for this call.
\<close>

record env =
  sha256_base64url :: "string \<Rightarrow> string"
  posix_join :: "string list \<Rightarrow> string"
  localeCompare :: "string \<Rightarrow> string \<Rightarrow> int"
  random_token :: string

definition frameId :: string where
  "frameId = ''main''"

section \<open>Helpers of the semantic tools\<close>

definition generateSID :: "env \<Rightarrow> ax_node \<Rightarrow> string \<Rightarrow> string list \<Rightarrow> string" where
  "generateSID e node frame pathSegments =
     (let role = getAXString (role (data node));
          name = getAXString (name (data node));
          description = getAXString (description (data node));
          axPath = posix_join e (''/'' # pathSegments);
          normalizedLabel = collapseWhiteSpace (trim (toLowerCase name));
          hashInput = frame @ ''||'' @ axPath @ ''||'' @ role @ ''||'' @ normalizedLabel
                      @ ''||'' @ description;
          hash = sha256_base64url e hashInput
      in ''sid_'' @ take 24 hash)"

definition extractTextSnippet :: "ax_node \<Rightarrow> nat \<Rightarrow> string option" where
  "extractTextSnippet node maxLength =
     (let name = getAXString (name (data node));
          description = getAXString (description (data node));
          value = getAXString (val (data node));
          text = (if truthy name then name else if truthy description then description
                  else value)
      in if \<not> truthy text then None
         else if length text > maxLength then Some (take maxLength text @ ''...'')
         else Some text)"

text \<open>
  The text that \<open>extractTextSnippet\<close> cuts, \<open>name || description || value\<close> in the source: the
  first non-empty one of the three strings, or the empty string.
\<close>

definition sourceText :: "ax_node \<Rightarrow> string" where
  "sourceText node =
     (let name = getAXString (name (data node));
          description = getAXString (description (data node));
          value = getAXString (val (data node))
      in if truthy name then name else if truthy description then description else value)"

definition getElementBounds :: "ax_node \<Rightarrow> SemanticNodeBounds" where
  "getElementBounds node = \<lparr>b_x = 0, b_y = 0, b_width = 100, b_height = 20\<rparr>"

definition candidates :: "string list" where
  "candidates =
     [''disabled'', ''expanded'', ''focused'', ''modal'', ''multiline'', ''multiselectable'',
      ''readonly'', ''required'', ''selected'', ''checked'', ''pressed'', ''level'',
      ''valuemin'', ''valuemax'', ''autocomplete'', ''haspopup'', ''invalid'',
      ''orientation'']"

definition rawField :: "ax_node \<Rightarrow> string \<Rightarrow> ax_value" where
  "rawField node k = (case map_of (raw (data node)) k of None \<Rightarrow> AXUndefined | Some v \<Rightarrow> v)"

text \<open>
  \<open>attributes[name] = value\<close> on an object literal. The name \<open>__proto__\<close> reaches the
  setter of \<open>Object.prototype\<close>, which ignores a string: no own field is made.
\<close>

definition setAttribute :: "(string \<rightharpoonup> string) \<Rightarrow> string \<Rightarrow> string \<Rightarrow> (string \<rightharpoonup> string)" where
  "setAttribute attributes k v = (if k = ''__proto__'' then attributes else attributes(k \<mapsto> v))"

definition addCandidate :: "ax_node \<Rightarrow> (string \<rightharpoonup> string) \<Rightarrow> string \<Rightarrow> (string \<rightharpoonup> string)" where
  "addCandidate node attributes candidate =
     (case rawField node candidate of
        AXUndefined \<Rightarrow> attributes
      | AXNull \<Rightarrow> attributes
      | AXString s \<Rightarrow> setAttribute attributes candidate (js_String (AXString s))
      | AXNumber s \<Rightarrow> setAttribute attributes candidate (js_String (AXNumber s))
      | AXBoolean b \<Rightarrow> setAttribute attributes candidate (js_String (AXBoolean b))
      | AXObject v \<Rightarrow> setAttribute attributes candidate (js_String (AXObject v)))"

definition addProperty :: "(string \<rightharpoonup> string) \<Rightarrow> ax_value \<times> ax_value \<Rightarrow> (string \<rightharpoonup> string)" where
  "addProperty attributes prop =
     (case fst prop of
        AXString s \<Rightarrow>
          (let name = toLowerCase s
           in if \<not> truthy name then attributes
              else (let value = getAXString (snd prop)
                    in if value = [] then attributes else setAttribute attributes name value))
      | _ \<Rightarrow> attributes)"

definition extractAttributes :: "ax_node \<Rightarrow> (string \<rightharpoonup> string)" where
  "extractAttributes node =
     foldl addProperty (foldl (addCandidate node) Map.empty candidates)
       (properties (data node))"

text \<open>
  \<open>attributes[key]\<close>: an own field, or nothing, or for the keys \<open>constructor\<close> and
  \<open>__proto__\<close> what every object inherits from \<open>Object.prototype\<close>, which is no string.
  These two are the only inherited names without an upper-case letter, and the key
  looked up is in lower case.
\<close>

datatype js_property = Absent | Own string | Inherited

definition getAttribute :: "(string \<rightharpoonup> string) \<Rightarrow> string \<Rightarrow> js_property" where
  "getAttribute attributes k =
     (case attributes k of
        Some v \<Rightarrow> Own v
      | None \<Rightarrow> if k = ''constructor'' \<or> k = ''__proto__'' then Inherited else Absent)"

text \<open>The path segment of a child: \<open>`${childRole}[${i}]`\<close>.\<close>

definition segment :: "ax_node \<Rightarrow> nat \<Rightarrow> string" where
  "segment child i =
     (let r = getAXString (role (data child));
          childRole = (if truthy r then r else ''node'')
      in childRole @ ''['' @ digits i @ '']'')"


section \<open>The tool \<open>sem_snapshot\<close>\<close>

datatype snapshot_scope = Viewport | Document

text \<open>The parameters after the schema has filled in the defaults.\<close>

record snapshot_params =
  scope :: snapshot_scope
  within_sid :: "string option"
  p_fields :: "string list"
  max_nodes :: nat
  cursor :: "string option"

record SemanticSnapshotNode =
  n_sid :: "string option"
  n_role :: "string option"
  n_label :: "string option"
  n_textSnippet :: "string option"
  n_bounds :: "SemanticNodeBounds option"
  n_frameId :: "string option"

text \<open>
  The state of one traversal: the array \<open>nodes\<close> that the handler fills. \<open>visited\<close> is a
  ghost field that no result depends on: it logs the argument \<open>pathSegments\<close> of every
  call of \<open>processNode\<close>, in call order.
\<close>

record snapshot_state =
  nodes :: "SemanticSnapshotNode list"
  visited :: "string list list"

text \<open>The object \<open>nodeData\<close> that \<open>processNode\<close> builds for a node it includes.\<close>

definition nodeData :: "env \<Rightarrow> snapshot_params \<Rightarrow> ax_node \<Rightarrow> string list \<Rightarrow> SemanticSnapshotNode" where
  "nodeData e params node pathSegments =
     (let sid = generateSID e node frameId pathSegments;
          role = getAXString (role (data node));
          label = getAXString (name (data node));
          textSnippet = extractTextSnippet node 50;
          bounds = getElementBounds node
      in \<lparr>n_sid = (if ''sid'' \<in> set (p_fields params) then Some sid else None),
          n_role = (if ''role'' \<in> set (p_fields params) then Some role else None),
          n_label = (if ''label'' \<in> set (p_fields params) then Some label else None),
          n_textSnippet =
            (if ''textSnippet'' \<in> set (p_fields params) \<and> given textSnippet then textSnippet
             else None),
          n_bounds = (if ''bounds'' \<in> set (p_fields params) then Some bounds else None),
          n_frameId = (if ''frameId'' \<in> set (p_fields params) then Some frameId else None)\<rparr>)"

text \<open>
  The scope test of both traversals. \<open>includeNode\<close> and \<open>nextScope\<close> are the same
  expression in the source.
\<close>

definition matchesTarget :: "string option \<Rightarrow> string \<Rightarrow> bool" where
  "matchesTarget targetSid sid = (if given targetSid then Some sid = targetSid else True)"

definition includeNode :: "string option \<Rightarrow> bool \<Rightarrow> string \<Rightarrow> bool" where
  "includeNode targetSid isWithinScope sid =
     (if given targetSid then isWithinScope \<or> matchesTarget targetSid sid else True)"

definition nextScope :: "string option \<Rightarrow> bool \<Rightarrow> string \<Rightarrow> bool" where
  "nextScope targetSid isWithinScope sid =
     (if given targetSid then isWithinScope \<or> matchesTarget targetSid sid else True)"

text \<open>
  The body of \<open>processNode\<close> up to the point where it turns to the children: the node is
  pushed when it is in scope and carries a role, a label or a text snippet.
\<close>

definition processNode_enter ::
    "env \<Rightarrow> snapshot_params \<Rightarrow> ax_node \<Rightarrow> string list \<Rightarrow> bool \<Rightarrow> snapshot_state \<Rightarrow> snapshot_state" where
  "processNode_enter e params node pathSegments isWithinScope st =
     (let sid = generateSID e node frameId pathSegments;
          role = getAXString (role (data node));
          label = getAXString (name (data node));
          textSnippet = extractTextSnippet node 50;
          st0 = st\<lparr>visited := visited st @ [pathSegments]\<rparr>
      in if includeNode (within_sid params) isWithinScope sid
            \<and> (truthy role \<or> truthy label \<or> given textSnippet)
         then st0\<lparr>nodes := nodes st0 @ [nodeData e params node pathSegments]\<rparr>
         else st0)"

text \<open>
  The rest of \<open>processNode\<close>: nothing more for a leaf, nothing more once the array holds
  \<open>max_nodes * 5\<close> entries, else the loop over the children, which \<open>processChildren\<close>
  runs from index \<open>i\<close>.
\<close>

fun processNode ::
    "env \<Rightarrow> snapshot_params \<Rightarrow> ax_node \<Rightarrow> string list \<Rightarrow> bool \<Rightarrow> snapshot_state \<Rightarrow> snapshot_state"
  and processChildren ::
    "env \<Rightarrow> snapshot_params \<Rightarrow> ax_node list \<Rightarrow> nat \<Rightarrow> string list \<Rightarrow> bool \<Rightarrow> snapshot_state
      \<Rightarrow> snapshot_state"
where
  "processNode e params (AXNode d cs) pathSegments isWithinScope st =
     (if cs = [] then processNode_enter e params (AXNode d cs) pathSegments isWithinScope st
      else if length (nodes (processNode_enter e params (AXNode d cs) pathSegments
                               isWithinScope st)) \<ge> max_nodes params * 5
      then processNode_enter e params (AXNode d cs) pathSegments isWithinScope st
      else processChildren e params cs 0 pathSegments
             (nextScope (within_sid params) isWithinScope
                (generateSID e (AXNode d cs) frameId pathSegments))
             (processNode_enter e params (AXNode d cs) pathSegments isWithinScope st))"
| "processChildren e params [] i pathSegments scope' st = st"
| "processChildren e params (child # rest) i pathSegments scope' st =
     processChildren e params rest (Suc i) pathSegments scope'
       (processNode e params child (pathSegments @ [segment child i]) scope' st)"

record snapshot_result =
  snapshot_id :: string
  pageNodes :: "SemanticSnapshotNode list"
  next_cursor :: "string option"

datatype error = Error string

definition snapshot_init :: snapshot_state where
  "snapshot_init = \<lparr>nodes = [], visited = []\<rparr>"

text \<open>
  The start of the page: 0, or \<open>parseInt(params.cursor, 10)\<close> when the cursor is a
  string that is not empty. \<open>parseInt\<close> never throws, so the \<open>catch\<close> branch of the
  source, which would reset the index to 0, is never taken.
\<close>

definition startIndex :: "string option \<Rightarrow> js_number" where
  "startIndex cursor' =
     (case cursor' of None \<Rightarrow> Num 0 | Some c \<Rightarrow> if truthy c then parseInt c else Num 0)"

text \<open>
  The handler. \<open>accessibilityTree\<close> is what \<open>page.accessibility.snapshot\<close> returned,
  \<open>None\<close> for \<open>null\<close>. The result is the object that the handler prints.
\<close>

definition semSnapshot :: "env \<Rightarrow> snapshot_params \<Rightarrow> ax_node option \<Rightarrow> error + snapshot_result" where
  "semSnapshot e params accessibilityTree =
     (case accessibilityTree of
        None \<Rightarrow>
          Inl (Error (''Failed to create semantic snapshot: ''
                      @ ''Failed to capture accessibility tree''))
      | Some tree \<Rightarrow>
          (let snapshotId = ''snap_'' @ random_token e;
               all_nodes = nodes (processNode e params tree [] False snapshot_init);
               start = startIndex (cursor params);
               endIndex = js_min (js_add start (Num (int (max_nodes params))))
                            (Num (int (length all_nodes)));
               page = slice all_nodes start endIndex;
               nextCursor = (if js_less endIndex (Num (int (length all_nodes)))
                             then Some (toString endIndex) else None)
           in Inr \<lparr>snapshot_id = snapshotId, pageNodes = page, next_cursor = nextCursor\<rparr>))"

section \<open>The tool \<open>sem_query\<close>\<close>

datatype rank_method = SemanticScore | Proximity | Visibility

text \<open>
  \<open>q_attributes\<close> is \<open>Object.entries(params.attributes)\<close> when the parameter is given.
\<close>

record query_params =
  q_role :: "string option"
  q_label :: "string option"
  q_text :: "string option"
  q_attributes :: "(string \<times> string) list option"
  q_within_sid :: "string option"
  rank_by :: rank_method
  multiple :: bool
  q_max :: nat
  explain :: bool

record SemanticQueryMatch =
  m_sid :: string
  m_role :: string
  m_label :: string
  confidence :: rat
  score :: int

text \<open>
  The state of one traversal: the arrays \<open>matches\<close> and \<open>explanations\<close>, and in \<open>thrown\<close>
  the message of the exception that ended the traversal, if one did. \<open>q_visited\<close> is a
  ghost field as in \<open>snapshot_state\<close>.
\<close>

record query_state =
  matches :: "SemanticQueryMatch list"
  explanations :: "string list"
  thrown :: "string option"
  q_visited :: "string list list"

definition scoreRole :: "query_params \<Rightarrow> string \<Rightarrow> int \<times> string list \<Rightarrow> int \<times> string list" where
  "scoreRole params nodeRole acc =
     (case q_role params of
        None \<Rightarrow> acc
      | Some r \<Rightarrow>
          if truthy r \<and> js_includes (toLowerCase nodeRole) (toLowerCase r)
          then (fst acc + 50, snd acc @ [''role='' @ nodeRole])
          else acc)"

text \<open>
  The sign U+2248 that the source writes into the match reasons. It is one code unit
  above 255; \<open>approx\<close> stands for it, spelled with the three chars \<open>E2 89 88\<close>. Match
  reasons are output only: no function measures, cuts or compares them.
\<close>

definition approx :: string where
  "approx = [CHR 0xE2, CHR 0x89, CHR 0x88]"

definition scoreLabel ::
    "query_params \<Rightarrow> string \<Rightarrow> string \<Rightarrow> int \<times> string list \<Rightarrow> int \<times> string list" where
  "scoreLabel params label nodeDescription acc =
     (case q_label params of
        None \<Rightarrow> acc
      | Some l \<Rightarrow>
          if \<not> truthy l then acc
          else (let searchLabel = toLowerCase l
                in if js_includes (toLowerCase label) searchLabel
                   then (fst acc + 40, snd acc @ [''label'' @ approx @ label])
                   else if js_includes (toLowerCase nodeDescription) searchLabel
                   then (fst acc + 30, snd acc @ [''description'' @ approx @ nodeDescription])
                   else acc))"

definition scoreText ::
    "query_params \<Rightarrow> string \<Rightarrow> string \<Rightarrow> string \<Rightarrow> int \<times> string list \<Rightarrow> int \<times> string list" where
  "scoreText params label nodeDescription value acc =
     (case q_text params of
        None \<Rightarrow> acc
      | Some t \<Rightarrow>
          if \<not> truthy t then acc
          else (let searchText = toLowerCase t;
                    allText = toLowerCase (label @ '' '' @ nodeDescription @ '' '' @ value)
                in if js_includes allText searchText
                   then (fst acc + 35, snd acc @ [''text'' @ approx @ t])
                   else acc))"

text \<open>
  The loop over \<open>Object.entries(params.attributes)\<close>. Calling \<open>toLowerCase\<close> on an
  inherited value, which is no string, throws a \<open>TypeError\<close>.
\<close>

fun scoreAttributes ::
    "(string \<rightharpoonup> string) \<Rightarrow> (string \<times> string) list \<Rightarrow> int \<times> string list
      \<Rightarrow> string + int \<times> string list" where
  "scoreAttributes attributes [] acc = Inr acc"
| "scoreAttributes attributes ((attr, expectedValue) # rest) acc =
     (case getAttribute attributes (toLowerCase attr) of
        Absent \<Rightarrow> scoreAttributes attributes rest acc
      | Inherited \<Rightarrow> Inl ''actualValue.toLowerCase is not a function''
      | Own actualValue \<Rightarrow>
          if truthy actualValue \<and> toLowerCase actualValue = toLowerCase expectedValue
          then scoreAttributes attributes rest
                 (fst acc + 20, snd acc @ [attr @ ''='' @ actualValue])
          else scoreAttributes attributes rest acc)"

text \<open>The score and the match reasons of one node that is in scope.\<close>

definition scoreNode :: "query_params \<Rightarrow> ax_node \<Rightarrow> string + int \<times> string list" where
  "scoreNode params node =
     (let role = getAXString (role (data node));
          label = getAXString (name (data node));
          description = getAXString (description (data node));
          value = getAXString (val (data node));
          attributes = extractAttributes node;
          acc = scoreText params label description value
                  (scoreLabel params label description (scoreRole params role (0, [])))
      in case q_attributes params of
           None \<Rightarrow> Inr acc
         | Some entries \<Rightarrow> scoreAttributes attributes entries acc)"

text \<open>\<open>Math.round(Math.min(score / 100, 1) * 100) / 100\<close>, in exact arithmetic.\<close>

definition roundedConfidence :: "int \<Rightarrow> rat" where
  "roundedConfidence s = of_int (js_round (min (of_int s / 100) 1 * 100)) / 100"

definition queryMatch :: "env \<Rightarrow> ax_node \<Rightarrow> string list \<Rightarrow> int \<Rightarrow> SemanticQueryMatch" where
  "queryMatch e node pathSegments s =
     \<lparr>m_sid = generateSID e node frameId pathSegments,
      m_role = getAXString (role (data node)),
      m_label = getAXString (name (data node)),
      confidence = roundedConfidence s,
      score = s\<rparr>"

text \<open>
  The body of \<open>searchNode\<close> up to the point where it turns to the children: a node in
  scope is scored, and pushed when the score is positive and the node has a role, a label
  or a description.
\<close>

definition searchNode_enter ::
    "env \<Rightarrow> query_params \<Rightarrow> ax_node \<Rightarrow> string list \<Rightarrow> bool \<Rightarrow> query_state \<Rightarrow> query_state" where
  "searchNode_enter e params node pathSegments isWithinScope st =
     (let sid = generateSID e node frameId pathSegments;
          role = getAXString (role (data node));
          label = getAXString (name (data node));
          description = getAXString (description (data node));
          st0 = st\<lparr>q_visited := q_visited st @ [pathSegments]\<rparr>
      in if includeNode (q_within_sid params) isWithinScope sid then
           (case scoreNode params node of
              Inl msg \<Rightarrow> st0\<lparr>thrown := Some msg\<rparr>
            | Inr (s, matchReasons) \<Rightarrow>
                if s > 0 \<and> (truthy role \<or> truthy label \<or> truthy description)
                then st0\<lparr>matches := matches st0 @ [queryMatch e node pathSegments s],
                         explanations :=
                           (if explain params
                            then explanations st0 @ [join '','' matchReasons]
                            else explanations st0)\<rparr>
                else st0)
         else st0)"

text \<open>
  The rest of \<open>searchNode\<close>. An exception ends the traversal: once \<open>thrown\<close> is set, no
  further node is visited.
\<close>

fun searchNode ::
    "env \<Rightarrow> query_params \<Rightarrow> ax_node \<Rightarrow> string list \<Rightarrow> bool \<Rightarrow> query_state \<Rightarrow> query_state"
  and searchChildren ::
    "env \<Rightarrow> query_params \<Rightarrow> ax_node list \<Rightarrow> nat \<Rightarrow> string list \<Rightarrow> bool \<Rightarrow> query_state
      \<Rightarrow> query_state"
where
  "searchNode e params (AXNode d cs) pathSegments isWithinScope st =
     (if thrown (searchNode_enter e params (AXNode d cs) pathSegments isWithinScope st) \<noteq> None
      then searchNode_enter e params (AXNode d cs) pathSegments isWithinScope st
      else if cs = []
      then searchNode_enter e params (AXNode d cs) pathSegments isWithinScope st
      else searchChildren e params cs 0 pathSegments
             (nextScope (q_within_sid params) isWithinScope
                (generateSID e (AXNode d cs) frameId pathSegments))
             (searchNode_enter e params (AXNode d cs) pathSegments isWithinScope st))"
| "searchChildren e params [] i pathSegments scope' st = st"
| "searchChildren e params (child # rest) i pathSegments scope' st =
     (if thrown (searchNode e params child (pathSegments @ [segment child i]) scope' st) \<noteq> None
      then searchNode e params child (pathSegments @ [segment child i]) scope' st
      else searchChildren e params rest (Suc i) pathSegments scope'
             (searchNode e params child (pathSegments @ [segment child i]) scope' st))"

text \<open>
  \<open>Array.prototype.sort\<close> with a comparison function is stable: an element moves behind
  another one only when the comparison of the two is positive. The model is the stable
  insertion sort.
\<close>

fun insert_by :: "('a \<Rightarrow> 'a \<Rightarrow> rat) \<Rightarrow> 'a \<Rightarrow> 'a list \<Rightarrow> 'a list" where
  "insert_by cmp a [] = [a]"
| "insert_by cmp a (b # bs) = (if cmp a b \<le> 0 then a # b # bs else b # insert_by cmp a bs)"

definition sort_by :: "('a \<Rightarrow> 'a \<Rightarrow> rat) \<Rightarrow> 'a list \<Rightarrow> 'a list" where
  "sort_by cmp xs = foldr (insert_by cmp) xs []"

definition rank :: "env \<Rightarrow> rank_method \<Rightarrow> SemanticQueryMatch list \<Rightarrow> SemanticQueryMatch list" where
  "rank e ranking ms =
     (case ranking of
        SemanticScore \<Rightarrow> sort_by (\<lambda>a b. of_int (score b - score a)) ms
      | Proximity \<Rightarrow> sort_by (\<lambda>a b. of_int (localeCompare e (m_sid a) (m_sid b))) ms
      | Visibility \<Rightarrow> sort_by (\<lambda>a b. confidence b - confidence a) ms)"

text \<open>
  The printed result. An entry of \<open>r_explanations\<close> is \<open>None\<close> where the array read is
  \<open>undefined\<close>; the whole field is \<open>None\<close> when \<open>explain\<close> is off.
\<close>

record query_result =
  sids :: "string list"
  elements :: "SemanticQueryMatch list"
  r_explanations :: "string option list option"

definition query_init :: query_state where
  "query_init = \<lparr>matches = [], explanations = [], thrown = None, q_visited = []\<rparr>"

definition semQuery :: "env \<Rightarrow> query_params \<Rightarrow> ax_node option \<Rightarrow> error + query_result" where
  "semQuery e params accessibilityTree =
     (case accessibilityTree of
        None \<Rightarrow>
          Inl (Error (''Failed to query semantic elements: ''
                      @ ''Failed to capture accessibility tree for querying''))
      | Some tree \<Rightarrow>
          (let st = searchNode e params tree [] False query_init
           in case thrown st of
                Some msg \<Rightarrow> Inl (Error (''Failed to query semantic elements: '' @ msg))
              | None \<Rightarrow>
                  (let sorted = rank e (rank_by params) (matches st);
                       limitedMatches = take (q_max params) sorted
                   in case limitedMatches of
                        bestMatch # others \<Rightarrow>
                          if \<not> multiple params
                          then Inr \<lparr>sids = [m_sid bestMatch], elements = [bestMatch],
                                    r_explanations =
                                      (if explain params
                                       then Some [case explanations st of
                                                    [] \<Rightarrow> None | x # xs \<Rightarrow> Some x]
                                       else None)\<rparr>
                          else Inr \<lparr>sids = map m_sid limitedMatches,
                                    elements = limitedMatches,
                                    r_explanations =
                                      (if explain params
                                       then Some (map Some (take (length limitedMatches)
                                                              (explanations st)))
                                       else None)\<rparr>
                      | [] \<Rightarrow>
                          Inr \<lparr>sids = map m_sid limitedMatches, elements = limitedMatches,
                               r_explanations =
                                 (if explain params
                                  then Some (map Some (take (length limitedMatches)
                                                         (explanations st)))
                                  else None)\<rparr>)))"

section \<open>Following the cursor\<close>

text \<open>
  A caller that reads a whole snapshot: it calls the tool without a cursor and then with
  each \<open>next_cursor\<close> in turn until that is \<open>null\<close>, and concatenates the pages. Every
  call passes the schema of the tool first, which rejects \<open>max_nodes < 1\<close>
  (\<open>z.number().int().min(1)\<close>).
\<close>

function follow :: "env \<Rightarrow> snapshot_params \<Rightarrow> ax_node \<Rightarrow> string option \<Rightarrow> error + SemanticSnapshotNode list" where
  "follow e params tree c =
     (if max_nodes params < 1 then Inl (Error ''max_nodes: Number must be greater than or equal to 1'')
      else case semSnapshot e (params\<lparr>cursor := c\<rparr>) (Some tree) of
             Inl err \<Rightarrow> Inl err
           | Inr r \<Rightarrow>
               (case next_cursor r of
                  None \<Rightarrow> Inr (pageNodes r)
                | Some c' \<Rightarrow>
                    (case follow e params tree (Some c') of
                       Inl err \<Rightarrow> Inl err
                     | Inr rest \<Rightarrow> Inr (pageNodes r @ rest))))"
  by pat_completeness auto

section \<open>Positions in the tree\<close>

text \<open>
  A position is the list of child indices that leads from the root to a node.
  \<open>subtree\<close> is the node at a position, \<open>path_from\<close> the argument \<open>pathSegments\<close> with
  which a traversal that enters \<open>node\<close> with \<open>segs\<close> reaches that position.
\<close>

fun subtree :: "ax_node \<Rightarrow> nat list \<Rightarrow> ax_node option" where
  "subtree node [] = Some node"
| "subtree node (i # p) =
     (if i < length (children node) then subtree (children node ! i) p else None)"

fun path_from :: "string list \<Rightarrow> ax_node \<Rightarrow> nat list \<Rightarrow> string list" where
  "path_from segs node [] = segs"
| "path_from segs node (i # p) =
     (if i < length (children node)
      then path_from (segs @ [segment (children node ! i) i]) (children node ! i) p
      else segs)"

text \<open>The SID that a traversal from the root derives for the node at a position.\<close>

definition sid_at :: "env \<Rightarrow> ax_node \<Rightarrow> nat list \<Rightarrow> string option" where
  "sid_at e tree p =
     (case subtree tree p of
        None \<Rightarrow> None
      | Some n \<Rightarrow> Some (generateSID e n frameId (path_from [] tree p)))"

text \<open>
  The node at position \<open>p\<close> is a descendant of, or equal to, a node whose SID is \<open>S\<close>.
\<close>

definition within_scope :: "env \<Rightarrow> ax_node \<Rightarrow> string \<Rightarrow> nat list \<Rightarrow> bool" where
  "within_scope e tree S p = list_ex (\<lambda>q. sid_at e tree q = Some S) (prefixes p)"

text \<open>
  The traversal of \<open>processNode\<close> without the early return at \<open>max_nodes * 5\<close>: the nodes
  that a complete walk pushes.
\<close>

fun collectNode ::
    "env \<Rightarrow> snapshot_params \<Rightarrow> ax_node \<Rightarrow> string list \<Rightarrow> bool \<Rightarrow> SemanticSnapshotNode list"
  and collectChildren ::
    "env \<Rightarrow> snapshot_params \<Rightarrow> ax_node list \<Rightarrow> nat \<Rightarrow> string list \<Rightarrow> bool
      \<Rightarrow> SemanticSnapshotNode list"
where
  "collectNode e params (AXNode d cs) pathSegments isWithinScope =
     nodes (processNode_enter e params (AXNode d cs) pathSegments isWithinScope snapshot_init)
     @ collectChildren e params cs 0 pathSegments
         (nextScope (within_sid params) isWithinScope
            (generateSID e (AXNode d cs) frameId pathSegments))"
| "collectChildren e params [] i pathSegments scope' = []"
| "collectChildren e params (child # rest) i pathSegments scope' =
     collectNode e params child (pathSegments @ [segment child i]) scope'
     @ collectChildren e params rest (Suc i) pathSegments scope'"

text \<open>The nodes and the matches that a call returns; none when the call fails.\<close>

definition returned_nodes :: "error + snapshot_result \<Rightarrow> SemanticSnapshotNode set" where
  "returned_nodes r = (case r of Inl err \<Rightarrow> {} | Inr x \<Rightarrow> set (pageNodes x))"

definition returned_matches :: "error + query_result \<Rightarrow> SemanticQueryMatch set" where
  "returned_matches r = (case r of Inl err \<Rightarrow> {} | Inr x \<Rightarrow> set (elements x))"

text \<open>
  \<open>stems_from made e S node segs sc x\<close>: the output \<open>x\<close> was made (\<open>made\<close>) from a node
  \<open>n\<close> at some position \<open>p\<close> below \<open>node\<close>, with the path that a traversal entering
  \<open>node\<close> with \<open>segs\<close> gives to \<open>n\<close>; and either the traversal entered \<open>node\<close> in scope
  (\<open>sc\<close>), or some node on the way from \<open>node\<close> to \<open>n\<close>, ends included, has the SID \<open>S\<close>.
\<close>

definition stems_from ::
    "(ax_node \<Rightarrow> string list \<Rightarrow> 'a \<Rightarrow> bool) \<Rightarrow> env \<Rightarrow> string \<Rightarrow> ax_node \<Rightarrow> string list \<Rightarrow> bool
      \<Rightarrow> 'a \<Rightarrow> bool" where
  "stems_from made e S node segs sc x =
     (\<exists>p n. subtree node p = Some n \<and> made n (path_from segs node p) x
        \<and> (sc \<or> (\<exists>q m. prefix q p \<and> subtree node q = Some m
                      \<and> generateSID e m frameId (path_from segs node q) = S)))"

text \<open>
  Two shapes of a list of logged paths: all extend \<open>segs\<close> and no path occurs twice; all
  run through the segment of a child with index at least \<open>i\<close> and no path occurs twice.
\<close>

definition fresh_paths :: "string list \<Rightarrow> string list list \<Rightarrow> bool" where
  "fresh_paths segs new = (distinct new \<and> (\<forall>q \<in> set new. prefix segs q))"

definition fresh_child_paths :: "string list \<Rightarrow> nat \<Rightarrow> string list list \<Rightarrow> bool" where
  "fresh_child_paths segs i new =
     (distinct new \<and> (\<forall>q \<in> set new. \<exists>c j. i \<le> j \<and> prefix (segs @ [segment c j]) q))"

section \<open>Example inputs\<close>

text \<open>
  An environment for the examples. Its digest function is a table of the SHA-256
  digests, in base64url, of the hash inputs that occur in the examples below; its
  \<open>posix_join\<close> joins with \<open>/\<close>, as \<open>path.posix.join\<close> does for segments that are not
  empty, contain no \<open>/\<close> and are neither \<open>.\<close> nor \<open>..\<close>.
\<close>

definition example_digests :: "(string \<times> string) list" where
  "example_digests =
     [(''main||/||form||login||'',
         ''Rho1Z5iDqGkBh7fuYlEeoHf9If8Bz6YQEfOwzsz5_Gk''),
      (''main||/button[0]||button||submit||'',
         ''zvvblJWm6zcEm2HA6aoC16v5MWowk2CDbrcB6YxuKzA''),
      (''main||/button[1]||button||cancel||'',
         ''WQ3bgnSY8c3WVjIp5kBCXIeejjcRQ-ijXRkvho301TA''),
      (''main||/||menu||main||'',
         ''XxgXmBNloDO2mb09R1sG95lDmRlkCuPB-QiovQtBQ2M''),
      (''main||/menuitem[0]||menuitem||a||'',
         ''36FoQCHn_PZ92_2sD936Cs1B7qFNxThQN6BG6jXZwUk''),
      (''main||/menuitem[1]||menuitem||b||'',
         ''Sh7IQBumdWTTFb0iswfhdo1SnoydeHhgxRAKWLumrQI''),
      (''main||/menuitem[2]||menuitem||c||'',
         ''-F2sEFHGy9F-AXD6TBt5_uaTIWiGyi9RF354X3EdKjI''),
      (''main||/menuitem[3]||menuitem||d||'',
         ''RtIhUhtvjkUkUIgJJ_jzCAigQku_8JSVYUxFdYU20R8''),
      (''main||/group[4]||group||more||'',
         ''Mgf0bKV7QABCiJ6JG052uEM321WdbpJFcTj_Pn5CS8k''),
      (''main||/group[4]/menuitem[0]||menuitem||e||'',
         ''7LLCtqBCAGYBenK-pUmt0TJYiJoc4To3roVTNOn0-gE''),
      (''main||/||heading||quarterly report of the committee on accessibility audits||'',
         ''maFrsL235Pn678CKM37_JZAneuPxdvQGABEZSk0kZfM''),
      (''main||/||button||submit||'',
         ''B9KNW2qn5oRbqFuZ9IQLv5wRzfPscU-ZhrQqOLB-V_w'')]"

fun compareUnits :: "string \<Rightarrow> string \<Rightarrow> int" where
  "compareUnits [] [] = 0"
| "compareUnits [] (b # bs) = - 1"
| "compareUnits (a # as) [] = 1"
| "compareUnits (a # as) (b # bs) =
     (if a = b then compareUnits as bs
      else if (of_char a :: nat) < of_char b then - 1 else 1)"

definition example_env :: env where
  "example_env =
     \<lparr>sha256_base64url = (\<lambda>s. case map_of example_digests s of None \<Rightarrow> [] | Some d \<Rightarrow> d),
      posix_join = (\<lambda>parts. case parts of [] \<Rightarrow> ''.'' | p # ps \<Rightarrow> p @ join ''/'' ps),
      localeCompare = compareUnits,
      random_token = ''k3x9ab''\<rparr>"

definition plain :: "string \<Rightarrow> string \<Rightarrow> ax_node list \<Rightarrow> ax_node" where
  "plain r n cs =
     AXNode \<lparr>role = AXString r, name = AXString n, description = AXUndefined,
             val = AXUndefined, raw = [], properties = [], geometry = None\<rparr> cs"

definition loginForm :: ax_node where
  "loginForm =
     plain ''form'' ''Login'' [plain ''button'' ''Submit'' [], plain ''button'' ''Cancel'' []]"

definition menu :: ax_node where
  "menu =
     plain ''menu'' ''Main''
       [plain ''menuitem'' ''A'' [], plain ''menuitem'' ''B'' [], plain ''menuitem'' ''C'' [],
        plain ''menuitem'' ''D'' [], plain ''group'' ''More'' [plain ''menuitem'' ''E'' []]]"

definition all_fields :: "string list" where
  "all_fields = [''sid'', ''role'', ''label'', ''textSnippet'', ''bounds'', ''frameId'']"

definition snapshot_defaults :: snapshot_params where
  "snapshot_defaults =
     \<lparr>scope = Document, within_sid = None, p_fields = all_fields, max_nodes = 5000,
      cursor = None\<rparr>"

definition query_defaults :: query_params where
  "query_defaults =
     \<lparr>q_role = None, q_label = None, q_text = None, q_attributes = None,
      q_within_sid = None, rank_by = SemanticScore, multiple = False, q_max = 10,
      explain = False\<rparr>"

text \<open>The single button of scenarios A and B; its other fields are left open.\<close>

definition submitButton ::
    "ax_value \<Rightarrow> ax_value \<Rightarrow> (string \<times> ax_value) list \<Rightarrow> (ax_value \<times> ax_value) list
      \<Rightarrow> SemanticNodeBounds option \<Rightarrow> ax_node" where
  "submitButton d v rw ps g =
     AXNode \<lparr>role = AXString ''button'', name = AXString ''Submit'', description = d,
             val = v, raw = rw, properties = ps, geometry = g\<rparr> []"

definition longHeading :: ax_node where
  "longHeading =
     plain ''heading'' ''Quarterly report of the committee on accessibility audits'' []"

definition framedButton :: ax_node where
  "framedButton =
     AXNode \<lparr>role = AXString ''button'', name = AXString ''Submit'',
             description = AXUndefined, val = AXUndefined, raw = [], properties = [],
             geometry = Some \<lparr>b_x = 10, b_y = 20, b_width = 30, b_height = 40\<rparr>\<rparr> []"

text \<open>The defaults with one node per page, and the nodes of \<open>loginForm\<close> as projected.\<close>

definition one_per_page :: snapshot_params where
  "one_per_page = snapshot_defaults\<lparr>max_nodes := 1\<rparr>"

definition placeholder :: SemanticNodeBounds where
  "placeholder = \<lparr>b_x = 0, b_y = 0, b_width = 100, b_height = 20\<rparr>"

definition login_data :: SemanticSnapshotNode where
  "login_data =
     \<lparr>n_sid = Some ''sid_Rho1Z5iDqGkBh7fuYlEeoHf9'', n_role = Some ''form'',
      n_label = Some ''Login'', n_textSnippet = Some ''Login'',
      n_bounds = Some placeholder, n_frameId = Some ''main''\<rparr>"

definition submit_data :: SemanticSnapshotNode where
  "submit_data =
     \<lparr>n_sid = Some ''sid_zvvblJWm6zcEm2HA6aoC16v5'', n_role = Some ''button'',
      n_label = Some ''Submit'', n_textSnippet = Some ''Submit'',
      n_bounds = Some placeholder, n_frameId = Some ''main''\<rparr>"

definition cancel_data :: SemanticSnapshotNode where
  "cancel_data =
     \<lparr>n_sid = Some ''sid_WQ3bgnSY8c3WVjIp5kBCXIee'', n_role = Some ''button'',
      n_label = Some ''Cancel'', n_textSnippet = Some ''Cancel'',
      n_bounds = Some placeholder, n_frameId = Some ''main''\<rparr>"

definition heading_data :: SemanticSnapshotNode where
  "heading_data =
     \<lparr>n_sid = Some ''sid_maFrsL235Pn678CKM37_JZAn'', n_role = Some ''heading'',
      n_label = Some ''Quarterly report of the committee on accessibility audits'',
      n_textSnippet = Some ''Quarterly report of the committee on accessibility...'',
      n_bounds = Some placeholder, n_frameId = Some ''main''\<rparr>"

definition framed_data :: SemanticSnapshotNode where
  "framed_data =
     \<lparr>n_sid = Some ''sid_B9KNW2qn5oRbqFuZ9IQLv5wR'', n_role = Some ''button'',
      n_label = Some ''Submit'', n_textSnippet = Some ''Submit'',
      n_bounds = Some placeholder, n_frameId = Some ''main''\<rparr>"

definition small_pages :: snapshot_params where
  "small_pages = snapshot_defaults\<lparr>max_nodes := 10\<rparr>"

text \<open>
  The SIDs of the Submit button of \<open>loginForm\<close> and of the group of \<open>menu\<close>, and calls
  scoped to the Submit button.
\<close>

definition submit_sid :: string where
  "submit_sid = ''sid_zvvblJWm6zcEm2HA6aoC16v5''"

definition more_sid :: string where
  "more_sid = ''sid_Mgf0bKV7QABCiJ6JG052uEM3''"

definition scoped_snapshot :: snapshot_params where
  "scoped_snapshot = small_pages\<lparr>within_sid := Some submit_sid\<rparr>"

definition scoped_query :: query_params where
  "scoped_query =
     query_defaults\<lparr>q_role := Some ''button'', q_within_sid := Some submit_sid,
       multiple := True\<rparr>"

definition submit_match :: SemanticQueryMatch where
  "submit_match =
     \<lparr>m_sid = submit_sid, m_role = ''button'', m_label = ''Submit'', confidence = 1 / 2,
      score = 50\<rparr>"

definition cancel_match :: SemanticQueryMatch where
  "cancel_match =
     \<lparr>m_sid = ''sid_WQ3bgnSY8c3WVjIp5kBCXIee'', m_role = ''button'', m_label = ''Cancel'',
      confidence = 1 / 2, score = 50\<rparr>"

section \<open>Decimal digits, cursors and path segments\<close>

lemma isDigit_digitChar: "d < 10 \<Longrightarrow> isDigit (digitChar d)"
  by (simp add: isDigit_def digitChar_def nth_Cons' )

lemma digitValue_digitChar: "d < 10 \<Longrightarrow> digitValue (digitChar d) = d"
proof -
  assume "d < 10"
  then have "d \<in> {0, 1, 2, 3, 4, 5, 6, 7, 8, 9}" by auto
  then show ?thesis
    by (auto simp: digitValue_def digitChar_def)
qed

lemma digits_all_digit: "\<forall>c \<in> set (digits n). isDigit c"
proof (induction n rule: digits.induct)
  case (1 n)
  show ?case
  proof (cases "n < 10")
    case True
    then show ?thesis by (subst digits.simps) (simp add: isDigit_digitChar)
  next
    case False
    with 1 show ?thesis by (subst digits.simps) (simp add: isDigit_digitChar)
  qed
qed

lemma digits_nonempty: "digits n \<noteq> []"
  by (subst digits.simps) simp

lemma digitsValue_snoc: "digitsValue (ds @ [c]) = digitsValue ds * 10 + digitValue c"
  by (simp add: digitsValue_def)

lemma digitsValue_digits: "digitsValue (digits n) = n"
proof (induction n rule: digits.induct)
  case (1 n)
  show ?case
  proof (cases "n < 10")
    case True
    then show ?thesis
      by (subst digits.simps) (simp add: digitsValue_def digitValue_digitChar)
  next
    case False
    with 1 have "digitsValue (digits (n div 10)) = n div 10" by simp
    with False show ?thesis
      by (subst digits.simps) (simp add: digitsValue_snoc digitValue_digitChar)
  qed
qed

lemma digits_inj: "digits i = digits j \<Longrightarrow> i = j"
  by (metis digitsValue_digits)

lemma not_digit_special: "\<not> isDigit CHR ''[''" "\<not> isDigit CHR '']''" "\<not> isDigit CHR ''-''" "\<not> isWhiteSpace CHR ''-''"
  by (simp_all add: isDigit_def isWhiteSpace_def)

lemma digit_not_space: "isDigit c \<Longrightarrow> \<not> isWhiteSpace c \<and> c \<noteq> CHR ''-'' \<and> c \<noteq> CHR ''+''"
  by (auto simp: isDigit_def isWhiteSpace_def)

lemma takeWhile_digits_end: "takeWhile isDigit (digits n) = digits n"
  using digits_all_digit[of n] by (simp add: takeWhile_eq_all_conv)

lemma hd_digits: "isDigit (hd (digits n))"
  using digits_all_digit[of n] digits_nonempty[of n] by (cases "digits n") auto

lemma parseInt_all_digits:
  assumes "s \<noteq> []" and "\<forall>c \<in> set s. isDigit c"
  shows "parseInt s = Num (int (digitsValue s))"
proof -
  obtain c cs where eq: "s = c # cs" using assms(1) by (cases s) auto
  have c: "isDigit c" using assms(2) eq by simp
  have dw: "dropWhile isWhiteSpace s = s"
    using c digit_not_space eq by simp
  have tw: "takeWhile isDigit s = s"
    using assms(2) by (simp add: takeWhile_eq_all_conv)
  have hd: "hd s \<noteq> CHR ''-''" "hd s \<noteq> CHR ''+''"
    using digit_not_space[OF c] eq by simp_all
  show ?thesis
    unfolding parseInt_def dw Let_def using hd assms(1) by (simp add: tw)
qed

lemma parseInt_digits: "parseInt (digits n) = Num (int n)"
  using parseInt_all_digits[OF digits_nonempty, of n] digits_all_digit[of n]
  by (simp add: digitsValue_digits)

lemma parseInt_neg_digits: "parseInt (CHR ''-'' # digits n) = Num (- int n)"
proof -
  have dw: "dropWhile isWhiteSpace (CHR ''-'' # digits n) = CHR ''-'' # digits n"
    by (simp add: not_digit_special)
  show ?thesis
    unfolding parseInt_def dw Let_def
    by (simp add: takeWhile_digits_end digits_nonempty digitsValue_digits)
qed

lemma parseInt_toString: "parseInt (toString (Num i)) = Num i"
  by (simp add: toString_def parseInt_digits parseInt_neg_digits)

lemma toString_nonempty: "toString n \<noteq> []"
  by (cases n) (simp_all add: toString_def digits_nonempty)

lemma segment_text_inj:
  assumes "r @ ''['' @ digits i @ '']'' = r' @ ''['' @ digits j @ '']''"
  shows "i = j"
proof -
  from assms have "r @ CHR ''['' # digits i = r' @ CHR ''['' # digits j"
    by simp
  then have "rev (r @ CHR ''['' # digits i) = rev (r' @ CHR ''['' # digits j)"
    by (rule arg_cong)
  then have eq: "rev (digits i) @ CHR ''['' # rev r = rev (digits j) @ CHR ''['' # rev r'"
    by (simp only: rev_append rev.simps append_assoc append.simps)
  have tw: "takeWhile isDigit (rev (digits n) @ CHR ''['' # rest) = rev (digits n)" for n rest
  proof -
    have "takeWhile isDigit (rev (digits n) @ CHR ''['' # rest)
        = rev (digits n) @ takeWhile isDigit (CHR ''['' # rest)"
      by (rule takeWhile_append2) (use digits_all_digit in auto)
    then show ?thesis by (simp add: not_digit_special)
  qed
  from eq have "takeWhile isDigit (rev (digits i) @ CHR ''['' # rev r)
      = takeWhile isDigit (rev (digits j) @ CHR ''['' # rev r')" by (rule arg_cong)
  then have "rev (digits i) = rev (digits j)" by (simp only: tw)
  then show ?thesis using digits_inj by simp
qed

lemma segment_index_inj: "segment c i = segment c' j \<Longrightarrow> i = j"
  unfolding segment_def Let_def by (rule segment_text_inj) simp

section \<open>Basic facts about the traversals\<close>

lemma js_round_of_int: "js_round (of_int k) = k"
  unfolding js_round_def by linarith

lemma roundedConfidence_eq: "roundedConfidence s = of_int (min s 100) / 100"
proof -
  have "min (of_int s / 100) 1 * 100 = (of_int (min s 100) :: rat)"
    by (simp add: min_def)
  then show ?thesis
    by (simp only: roundedConfidence_def js_round_of_int)
qed

lemma nodes_enter:
  "nodes (processNode_enter e params node segs sc st) =
     nodes st @
     (if includeNode (within_sid params) sc (generateSID e node frameId segs)
         \<and> (truthy (getAXString (role (data node))) \<or> truthy (getAXString (name (data node)))
              \<or> given (extractTextSnippet node 50))
      then [nodeData e params node segs] else [])"
  by (simp add: processNode_enter_def Let_def)

lemma visited_enter:
  "visited (processNode_enter e params node segs sc st) = visited st @ [segs]"
  by (simp add: processNode_enter_def Let_def)

lemma q_visited_enter:
  "q_visited (searchNode_enter e params node segs sc st) = q_visited st @ [segs]"
  by (simp add: searchNode_enter_def Let_def split: sum.splits prod.splits)

lemma nodeData_scope:
  "nodeData e (params\<lparr>scope := s\<rparr>) node segs = nodeData e params node segs"
  by (simp add: nodeData_def)

lemma processNode_enter_scope:
  "processNode_enter e (params\<lparr>scope := s\<rparr>) node segs sc st
     = processNode_enter e params node segs sc st"
  by (simp add: processNode_enter_def Let_def nodeData_scope)

lemma processNode_scope:
  "processNode e (params\<lparr>scope := s\<rparr>) node segs sc st = processNode e params node segs sc st"
  "processChildren e (params\<lparr>scope := s\<rparr>) cs i segs sc st
     = processChildren e params cs i segs sc st"
  by (induction e params node segs sc st and e params cs i segs sc st
      rule: processNode_processChildren.induct)
     (simp_all add: processNode_enter_scope)

lemma nodeData_cursor:
  "nodeData e (params\<lparr>cursor := c\<rparr>) node segs = nodeData e params node segs"
  by (simp add: nodeData_def)

lemma processNode_enter_cursor:
  "processNode_enter e (params\<lparr>cursor := c\<rparr>) node segs sc st
     = processNode_enter e params node segs sc st"
  by (simp add: processNode_enter_def Let_def nodeData_cursor)

lemma processNode_cursor:
  "processNode e (params\<lparr>cursor := c\<rparr>) node segs sc st = processNode e params node segs sc st"
  "processChildren e (params\<lparr>cursor := c\<rparr>) cs i segs sc st
     = processChildren e params cs i segs sc st"
  by (induction e params node segs sc st and e params cs i segs sc st
      rule: processNode_processChildren.induct)
     (simp_all add: processNode_enter_cursor)

lemma lower_button: "toLowerCase ''button'' = ''button''"
  by (simp add: toLowerCase_def toLowerChar_def upperLetters_def lowerLetters_def)

lemma lower_Submit: "toLowerCase ''Submit'' = ''submit''"
  by (simp add: toLowerCase_def toLowerChar_def upperLetters_def lowerLetters_def)

section \<open>The example inputs evaluated\<close>

lemma loginForm_nodes:
  "nodes (processNode example_env one_per_page loginForm [] False snapshot_init)
    = [login_data, submit_data, cancel_data]"
  by code_simp

section \<open>Pagination\<close>

lemma semSnapshot_Some:
  "semSnapshot e params (Some tree) =
     Inr \<lparr>snapshot_id = ''snap_'' @ random_token e,
          pageNodes = slice (nodes (processNode e params tree [] False snapshot_init))
                        (startIndex (cursor params))
                        (js_min (js_add (startIndex (cursor params)) (Num (int (max_nodes params))))
                           (Num (int (length (nodes (processNode e params tree [] False snapshot_init)))))),
          next_cursor =
            (if js_less (js_min (js_add (startIndex (cursor params)) (Num (int (max_nodes params))))
                           (Num (int (length (nodes (processNode e params tree [] False snapshot_init))))))
                  (Num (int (length (nodes (processNode e params tree [] False snapshot_init)))))
             then Some (toString (js_min (js_add (startIndex (cursor params)) (Num (int (max_nodes params))))
                           (Num (int (length (nodes (processNode e params tree [] False snapshot_init)))))))
             else None)\<rparr>"
  by (simp add: semSnapshot_def Let_def)

lemma startIndex_toString: "startIndex (Some (toString (Num i))) = Num i"
  by (simp add: startIndex_def truthy_def toString_nonempty parseInt_toString)

lemma snapshot_next:
  assumes "semSnapshot e (params\<lparr>cursor := c\<rparr>) (Some tree) = Inr r"
    and "next_cursor r = Some c'"
  shows "\<exists>s. startIndex c = Num s
           \<and> s + int (max_nodes params) < int (length (nodes (processNode e params tree [] False snapshot_init)))
           \<and> c' = toString (Num (s + int (max_nodes params)))"
proof (cases "startIndex c")
  case NaN
  with assms show ?thesis
    by (auto simp: semSnapshot_Some processNode_cursor js_add_def js_min_def js_less_def)
next
  case (Num s)
  with assms show ?thesis
    by (auto simp: semSnapshot_Some processNode_cursor js_add_def js_min_def js_less_def min_def
        split: if_splits)
qed

termination follow
proof (relation "measure (\<lambda>(e, params, tree, c).
          case startIndex c of
            NaN \<Rightarrow> 0
          | Num s \<Rightarrow> nat (int (length (nodes (processNode e params tree [] False snapshot_init))) - s))")
  show "wf (measure (\<lambda>(e, params, tree, c).
          case startIndex c of
            NaN \<Rightarrow> 0
          | Num s \<Rightarrow> nat (int (length (nodes (processNode e params tree [] False snapshot_init))) - s)))"
    by simp
next
  fix e params tree c r c'
  assume m: "\<not> max_nodes params < 1"
    and r: "semSnapshot e (params\<lparr>cursor := c\<rparr>) (Some tree) = Inr r"
    and c': "next_cursor r = Some c'"
  from snapshot_next[OF r c'] obtain s where
    s: "startIndex c = Num s"
    "s + int (max_nodes params) < int (length (nodes (processNode e params tree [] False snapshot_init)))"
    "c' = toString (Num (s + int (max_nodes params)))"
    by blast
  with m show "((e, params, tree, Some c'), (e, params, tree, c)) \<in> measure (\<lambda>(e, params, tree, c).
          case startIndex c of
            NaN \<Rightarrow> 0
          | Num s \<Rightarrow> nat (int (length (nodes (processNode e params tree [] False snapshot_init))) - s))"
    by (simp add: startIndex_toString)
qed

declare follow.simps [simp del]

lemma slice_window:
  assumes "k \<le> length xs"
  shows "slice xs (Num (int k)) (Num (min (int k + int m) (int (length xs)))) = take m (drop k xs)"
proof -
  have a: "sliceIndex (length xs) (Num (int k)) = k"
    using assms by (simp add: sliceIndex_def min_def)
  have "min (int k + int m) (int (length xs)) = int (min (k + m) (length xs))"
    by (simp add: min_def)
  then have b: "sliceIndex (length xs) (Num (min (int k + int m) (int (length xs))))
      = min (k + m) (length xs)"
    by (simp only: sliceIndex_def js_number.case) simp
  show ?thesis
    unfolding slice_def Let_def a b using assms by (simp add: min_def)
qed

lemma semSnapshot_single_page:
  assumes "cursor params = None"
    and "length (nodes (processNode e params tree [] False snapshot_init)) \<le> max_nodes params"
  shows "semSnapshot e params (Some tree) =
           Inr \<lparr>snapshot_id = ''snap_'' @ random_token e,
                pageNodes = nodes (processNode e params tree [] False snapshot_init),
                next_cursor = None\<rparr>"
proof -
  let ?all = "nodes (processNode e params tree [] False snapshot_init)"
  have "slice ?all (Num (int 0)) (Num (min (int 0 + int (max_nodes params)) (int (length ?all))))
      = take (max_nodes params) (drop 0 ?all)"
    by (rule slice_window) simp
  with assms show ?thesis
    by (simp add: semSnapshot_Some startIndex_def js_add_def js_min_def js_less_def min_def)
qed

lemma follow_from:
  assumes "1 \<le> max_nodes params"
    and "startIndex c = Num (int k)"
    and "k \<le> length (nodes (processNode e params tree [] False snapshot_init))"
  shows "follow e params tree c = Inr (drop k (nodes (processNode e params tree [] False snapshot_init)))"
  using assms(2,3)
proof (induction "length (nodes (processNode e params tree [] False snapshot_init)) - k"
    arbitrary: k c rule: less_induct)
  case less
  let ?all = "nodes (processNode e params tree [] False snapshot_init)"
  let ?m = "max_nodes params"
  have page: "slice ?all (Num (int k)) (Num (min (int k + int ?m) (int (length ?all)))) = take ?m (drop k ?all)"
    using less.prems(2) by (rule slice_window)
  show ?case
  proof (cases "k + ?m < length ?all")
    case True
    have rec: "follow e params tree (Some (toString (Num (int (k + ?m))))) = Inr (drop (k + ?m) ?all)"
    proof (rule less.hyps)
      show "length ?all - (k + ?m) < length ?all - k" using True assms(1) by simp
      show "startIndex (Some (toString (Num (int (k + ?m))))) = Num (int (k + ?m))"
        by (rule startIndex_toString)
      show "k + ?m \<le> length ?all" using True by simp
    qed
    have "take ?m (drop k ?all) @ drop (k + ?m) ?all = drop k ?all"
      by (metis add.commute append_take_drop_id drop_drop)
    with True rec page assms(1) less.prems(1) show ?thesis
      by (subst follow.simps)
         (simp add: semSnapshot_Some processNode_cursor js_add_def js_min_def js_less_def min_def)
  next
    case False
    then have "take ?m (drop k ?all) = drop k ?all" by simp
    with False page assms(1) less.prems(1) show ?thesis
      by (subst follow.simps)
         (simp add: semSnapshot_Some processNode_cursor js_add_def js_min_def js_less_def min_def)
  qed
qed

text \<open>
  Claim C2. For a fixed tree and a fixed \<open>max_nodes\<close> (at least 1, as the schema
  demands), the pages got by calling \<open>sem_snapshot\<close> without a cursor and then with each
  \<open>next_cursor\<close> until it is \<open>null\<close> concatenate to the full list of materialized nodes:
  same order, nothing twice, nothing left out. The chain of calls ends, since \<open>follow\<close>
  is total.
\<close>

theorem pagination_completeness:
  "1 \<le> max_nodes params \<Longrightarrow>
   follow e params tree None = Inr (nodes (processNode e params tree [] False snapshot_init))"
  using follow_from[of params None 0 e tree] by (simp add: startIndex_def)

theorem pagination_completeness_witness:
  "1 \<le> max_nodes one_per_page \<and>
   follow example_env one_per_page loginForm None = Inr [login_data, submit_data, cancel_data]"
proof -
  have h: "1 \<le> max_nodes one_per_page"
    by (simp add: one_per_page_def)
  show ?thesis
    using pagination_completeness[OF h, of example_env loginForm] h
    by (simp only: loginForm_nodes simp_thms)
qed

section \<open>Claims about single calls\<close>

text \<open>
  Claim C3. On a tree that is one node with role \<open>button\<close> and name \<open>Submit\<close>, the
  query for role \<open>button\<close> returns exactly one match, with score 50 and confidence 0.5,
  and the query for role \<open>button\<close> and label \<open>Submit\<close> returns exactly one match, with
  score 90 and confidence 0.9.
\<close>

theorem scenario_A_B_scores:
  "semQuery e (query_defaults\<lparr>q_role := Some ''button''\<rparr>) (Some (submitButton d v rw ps g))
     = Inr \<lparr>sids = [generateSID e (submitButton d v rw ps g) ''main'' []],
            elements = [\<lparr>m_sid = generateSID e (submitButton d v rw ps g) ''main'' [],
                         m_role = ''button'', m_label = ''Submit'',
                         confidence = 1 / 2, score = 50\<rparr>],
            r_explanations = None\<rparr>
   \<and> semQuery e (query_defaults\<lparr>q_role := Some ''button'', q_label := Some ''Submit''\<rparr>)
       (Some (submitButton d v rw ps g))
     = Inr \<lparr>sids = [generateSID e (submitButton d v rw ps g) ''main'' []],
            elements = [\<lparr>m_sid = generateSID e (submitButton d v rw ps g) ''main'' [],
                         m_role = ''button'', m_label = ''Submit'',
                         confidence = 9 / 10, score = 90\<rparr>],
            r_explanations = None\<rparr>"
  by (simp add: semQuery_def query_defaults_def submitButton_def query_init_def
        searchNode_enter_def includeNode_def Let_def scoreNode_def scoreRole_def
        scoreLabel_def scoreText_def truthy_def given_def lower_button lower_Submit
        queryMatch_def roundedConfidence_eq rank_def sort_by_def frameId_def)

text \<open>
  Claim C5. When the tree provider returns \<open>null\<close>, \<open>sem_snapshot\<close> and \<open>sem_query\<close>
  both fail with their tree-capture error; neither returns a result, so neither returns
  an empty list of nodes or matches.
\<close>

theorem tree_capture_failure_is_error:
  "semSnapshot e params None
     = Inl (Error ''Failed to create semantic snapshot: Failed to capture accessibility tree'')
   \<and> semQuery e qparams None
       = Inl (Error
           ''Failed to query semantic elements: Failed to capture accessibility tree for querying'')"
  by (simp add: semSnapshot_def semQuery_def)

text \<open>
  Claim C10. The parameter \<open>scope\<close> of \<open>sem_snapshot\<close> has no effect: with all other
  parameters and the tree fixed, the result for \<open>viewport\<close> is the result for
  \<open>document\<close>.
\<close>

theorem scope_parameter_ignored:
  "semSnapshot e (params\<lparr>scope := Viewport\<rparr>) tree
     = semSnapshot e (params\<lparr>scope := Document\<rparr>) tree"
  by (simp add: semSnapshot_def processNode_scope split: option.splits)

section \<open>Paths\<close>

lemma sibling_paths_differ:
  assumes "prefix (segs @ [segment c i]) q" and "prefix (segs @ [segment c' j]) q"
  shows "i = j"
proof -
  from assms obtain zs zs' where "q = segs @ segment c i # zs" "q = segs @ segment c' j # zs'"
    by (auto simp: prefix_def)
  then have "segment c i = segment c' j" by simp
  then show ?thesis by (rule segment_index_inj)
qed

lemma longer_path:
  assumes "prefix (segs @ [x]) q"
  shows "q \<noteq> segs" and "prefix segs q"
  using assms by (auto simp: prefix_def)

lemma fresh_paths_node:
  assumes "fresh_child_paths segs 0 new"
  shows "fresh_paths segs (segs # new)"
  using assms longer_path unfolding fresh_paths_def fresh_child_paths_def by fastforce

lemma fresh_paths_single: "fresh_paths segs [segs]"
  by (simp add: fresh_paths_def)

lemma fresh_child_paths_nil: "fresh_child_paths segs i []"
  by (simp add: fresh_child_paths_def)

lemma fresh_child_paths_cons:
  assumes a: "fresh_paths (segs @ [segment child i]) new_a"
    and b: "fresh_child_paths segs (Suc i) new_b"
  shows "fresh_child_paths segs i (new_a @ new_b)"
proof -
  have disj: "set new_a \<inter> set new_b = {}"
  proof (rule ccontr)
    assume "set new_a \<inter> set new_b \<noteq> {}"
    then obtain q where qa: "q \<in> set new_a" and qb: "q \<in> set new_b" by blast
    from a qa have "prefix (segs @ [segment child i]) q" by (simp add: fresh_paths_def)
    moreover from b qb obtain c j where "Suc i \<le> j" "prefix (segs @ [segment c j]) q"
      by (auto simp: fresh_child_paths_def)
    ultimately show False using sibling_paths_differ by fastforce
  qed
  have "\<exists>c j. i \<le> j \<and> prefix (segs @ [segment c j]) q" if "q \<in> set new_a \<union> set new_b" for q
  proof (cases "q \<in> set new_a")
    case True
    with a have "prefix (segs @ [segment child i]) q" by (simp add: fresh_paths_def)
    then show ?thesis by blast
  next
    case False
    with that b obtain c j where "Suc i \<le> j" "prefix (segs @ [segment c j]) q"
      by (auto simp: fresh_child_paths_def)
    then show ?thesis by (meson Suc_leD)
  qed
  with a b disj show ?thesis
    by (simp add: fresh_paths_def fresh_child_paths_def)
qed

lemma processNode_paths:
  "\<exists>new. visited (processNode e params node segs sc st) = visited st @ new \<and> fresh_paths segs new"
  "\<exists>new. visited (processChildren e params cs i segs sc st) = visited st @ new
         \<and> fresh_child_paths segs i new"
proof (induction e params node segs sc st and e params cs i segs sc st
    rule: processNode_processChildren.induct)
  case (1 e params d cs segs sc st)
  let ?st1 = "processNode_enter e params (AXNode d cs) segs sc st"
  show ?case
  proof (cases "cs \<noteq> [] \<and> \<not> max_nodes params * 5 \<le> length (nodes ?st1)")
    case True
    with 1 obtain new where
      "visited (processChildren e params cs 0 segs
          (nextScope (within_sid params) sc (generateSID e (AXNode d cs) frameId segs)) ?st1)
        = visited ?st1 @ new"
      and "fresh_child_paths segs 0 new" by blast
    with True show ?thesis
      using fresh_paths_node by (auto simp: visited_enter)
  next
    case False
    then show ?thesis
      using fresh_paths_single by (auto simp: visited_enter)
  qed
next
  case (2 e params i segs sc st)
  show ?case by (simp add: fresh_child_paths_nil)
next
  case (3 e params child rest i segs sc st)
  let ?st' = "processNode e params child (segs @ [segment child i]) sc st"
  from 3 obtain new_a where a: "visited ?st' = visited st @ new_a"
    "fresh_paths (segs @ [segment child i]) new_a" by blast
  from 3 obtain new_b where b:
    "visited (processChildren e params rest (Suc i) segs sc ?st') = visited ?st' @ new_b"
    "fresh_child_paths segs (Suc i) new_b" by blast
  from a b show ?case
    using fresh_child_paths_cons by fastforce
qed

lemma searchNode_paths:
  "\<exists>new. q_visited (searchNode e params node segs sc st) = q_visited st @ new \<and> fresh_paths segs new"
  "\<exists>new. q_visited (searchChildren e params cs i segs sc st) = q_visited st @ new
         \<and> fresh_child_paths segs i new"
proof (induction e params node segs sc st and e params cs i segs sc st
    rule: searchNode_searchChildren.induct)
  case (1 e params d cs segs sc st)
  let ?st1 = "searchNode_enter e params (AXNode d cs) segs sc st"
  show ?case
  proof (cases "thrown ?st1 = None \<and> cs \<noteq> []")
    case True
    with 1 obtain new where
      "q_visited (searchChildren e params cs 0 segs
          (nextScope (q_within_sid params) sc (generateSID e (AXNode d cs) frameId segs)) ?st1)
        = q_visited ?st1 @ new"
      and "fresh_child_paths segs 0 new" by auto
    with True show ?thesis
      using fresh_paths_node by (auto simp: q_visited_enter)
  next
    case False
    then show ?thesis
      using fresh_paths_single by (auto simp: q_visited_enter)
  qed
next
  case (2 e params i segs sc st)
  show ?case by (simp add: fresh_child_paths_nil)
next
  case (3 e params child rest i segs sc st)
  let ?st' = "searchNode e params child (segs @ [segment child i]) sc st"
  from 3 obtain new_a where a: "q_visited ?st' = q_visited st @ new_a"
    "fresh_paths (segs @ [segment child i]) new_a" by blast
  show ?case
  proof (cases "thrown ?st' = None")
    case True
    with 3 obtain new_b where b:
      "q_visited (searchChildren e params rest (Suc i) segs sc ?st') = q_visited ?st' @ new_b"
      "fresh_child_paths segs (Suc i) new_b" by blast
    from a b True show ?thesis
      using fresh_child_paths_cons by fastforce
  next
    case False
    with a show ?thesis
      using fresh_child_paths_cons[OF a(2) fresh_child_paths_nil] by auto
  qed
qed

text \<open>
  Claim C9. Within one traversal, by \<open>processNode\<close> or by \<open>searchNode\<close>, no two nodes
  are given the same path, the path being the list of segments \<open>role[index]\<close> handed
  down from the root. Each call logs its path once, so the log has no repetition. The
  statement is about the list of segments, not about the string that \<open>path.posix.join\<close>
  makes of it for the hash.
\<close>

theorem path_uniqueness:
  "distinct (visited (processNode e params tree [] False snapshot_init))
   \<and> distinct (q_visited (searchNode e qparams tree [] False query_init))"
  using processNode_paths(1)[of e params tree "[]" False snapshot_init]
    searchNode_paths(1)[of e qparams tree "[]" False query_init]
  by (auto simp: fresh_paths_def snapshot_init_def query_init_def)

section \<open>Where the returned nodes come from\<close>

lemma set_slice_subset: "set (slice xs a b) \<subseteq> set xs"
  unfolding slice_def Let_def by (meson set_take_subset set_drop_subset subset_trans)

lemma page_subset:
  assumes "semSnapshot e params (Some tree) = Inr r"
  shows "set (pageNodes r) \<subseteq> set (nodes (processNode e params tree [] False snapshot_init))"
proof -
  from assms obtain a b where
    "pageNodes r = slice (nodes (processNode e params tree [] False snapshot_init)) a b"
    by (auto simp: semSnapshot_Some)
  then show ?thesis by (simp add: set_slice_subset)
qed

lemma stems_self:
  assumes "made node segs x" and "sc \<or> generateSID e node frameId segs = S"
  shows "stems_from made e S node segs sc x"
proof -
  have "subtree node [] = Some node" "path_from segs node [] = segs" "prefix [] ([]::nat list)"
    by simp_all
  with assms show ?thesis unfolding stems_from_def by metis
qed

lemma stems_child:
  assumes k: "k < length (children node)"
    and c: "stems_from made e S (children node ! k) (segs @ [segment (children node ! k) k])
              (sc \<or> generateSID e node frameId segs = S) x"
  shows "stems_from made e S node segs sc x"
proof -
  let ?c = "children node ! k"
  let ?segs = "segs @ [segment ?c k]"
  from c obtain p n where p: "subtree ?c p = Some n" "made n (path_from ?segs ?c p) x"
    and sc: "(sc \<or> generateSID e node frameId segs = S) \<or>
       (\<exists>q m. prefix q p \<and> subtree ?c q = Some m \<and> generateSID e m frameId (path_from ?segs ?c q) = S)"
    unfolding stems_from_def by blast
  have p': "subtree node (k # p) = Some n" "made n (path_from segs node (k # p)) x"
    using k p by simp_all
  from sc consider "sc" | "generateSID e node frameId segs = S"
    | q m where "prefix q p" "subtree ?c q = Some m" "generateSID e m frameId (path_from ?segs ?c q) = S"
    by blast
  then show ?thesis
  proof cases
    case 1
    with p' show ?thesis unfolding stems_from_def by blast
  next
    case 2
    have "prefix [] (k # p)" "subtree node [] = Some node" "path_from segs node [] = segs" by simp_all
    with 2 p' show ?thesis unfolding stems_from_def by metis
  next
    case 3
    then have "prefix (k # q) (k # p)" "subtree node (k # q) = Some m"
      "generateSID e m frameId (path_from segs node (k # q)) = S"
      using k by simp_all
    with p' show ?thesis unfolding stems_from_def by blast
  qed
qed

lemma scope_given:
  assumes "S \<noteq> []"
  shows "includeNode (Some S) sc sid = (sc \<or> sid = S)"
    and "nextScope (Some S) sc sid = (sc \<or> sid = S)"
  using assms by (auto simp: includeNode_def nextScope_def matchesTarget_def given_def truthy_def)

lemma processNode_stems:
  assumes w: "within_sid params = Some S" "S \<noteq> []"
  shows "nd \<in> set (nodes (processNode e params node segs sc st)) \<Longrightarrow>
           nd \<in> set (nodes st) \<or> stems_from (\<lambda>n path x. x = nodeData e params n path) e S node segs sc nd"
    and "nd \<in> set (nodes (processChildren e params cs i segs sc st)) \<Longrightarrow>
           nd \<in> set (nodes st) \<or>
           (\<exists>k < length cs. stems_from (\<lambda>n path x. x = nodeData e params n path) e S (cs ! k)
                              (segs @ [segment (cs ! k) (i + k)]) sc nd)"
  using w
proof (induction e params node segs sc st and e params cs i segs sc st
    rule: processNode_processChildren.induct)
  case (1 e params d cs segs sc st)
  let ?node = "AXNode d cs"
  let ?st1 = "processNode_enter e params ?node segs sc st"
  let ?made = "\<lambda>n path x. x = nodeData e params n path"
  let ?sc' = "sc \<or> generateSID e ?node frameId segs = S"
  have enter: "nd \<in> set (nodes ?st1) \<Longrightarrow> nd \<in> set (nodes st) \<or> stems_from ?made e S ?node segs sc nd"
    using stems_self[of ?made ?node segs nd sc e S] 1(3,4)
    by (auto simp: nodes_enter scope_given split: if_splits)
  show ?case
  proof (cases "cs \<noteq> [] \<and> \<not> max_nodes params * 5 \<le> length (nodes ?st1)")
    case True
    with 1(2,3,4) have "nd \<in> set (nodes (processChildren e params cs 0 segs ?sc' ?st1))"
      by (simp add: scope_given)
    with 1(1) True 1(3,4) have "nd \<in> set (nodes ?st1) \<or>
        (\<exists>k < length cs. stems_from ?made e S (cs ! k) (segs @ [segment (cs ! k) k]) ?sc' nd)"
      by (simp add: scope_given)
    then show ?thesis
    proof
      assume "nd \<in> set (nodes ?st1)"
      then show ?thesis by (rule enter)
    next
      assume "\<exists>k < length cs. stems_from ?made e S (cs ! k) (segs @ [segment (cs ! k) k]) ?sc' nd"
      then obtain k where "k < length (children ?node)"
        "stems_from ?made e S (children ?node ! k) (segs @ [segment (children ?node ! k) k]) ?sc' nd"
        by auto
      then have "stems_from ?made e S ?node segs sc nd" by (rule stems_child)
      then show ?thesis ..
    qed
  next
    case False
    with 1(2) have "nd \<in> set (nodes ?st1)" by (auto split: if_splits)
    then show ?thesis by (rule enter)
  qed
next
  case (2 e params i segs sc st)
  then show ?case by simp
next
  case (3 e params child rest i segs sc st)
  let ?made = "\<lambda>n path x. x = nodeData e params n path"
  let ?st' = "processNode e params child (segs @ [segment child i]) sc st"
  from 3(3) have "nd \<in> set (nodes (processChildren e params rest (Suc i) segs sc ?st'))" by simp
  from 3(2)[OF this 3(4,5)] show ?case
  proof
    assume "nd \<in> set (nodes ?st')"
    from 3(1)[OF this 3(4,5)] show ?thesis
    proof
      assume "nd \<in> set (nodes st)" then show ?thesis ..
    next
      assume "stems_from ?made e S child (segs @ [segment child i]) sc nd"
      then have "0 < length (child # rest) \<and> stems_from ?made e S ((child # rest) ! 0)
          (segs @ [segment ((child # rest) ! 0) (i + 0)]) sc nd" by simp
      then show ?thesis by blast
    qed
  next
    assume "\<exists>k < length rest. stems_from ?made e S (rest ! k) (segs @ [segment (rest ! k) (Suc i + k)]) sc nd"
    then obtain k where "k < length rest"
      "stems_from ?made e S (rest ! k) (segs @ [segment (rest ! k) (Suc i + k)]) sc nd" by blast
    then have "Suc k < length (child # rest) \<and> stems_from ?made e S ((child # rest) ! Suc k)
          (segs @ [segment ((child # rest) ! Suc k) (i + Suc k)]) sc nd" by simp
    then show ?thesis by blast
  qed
qed

lemma processNode_nodes_made:
  "nd \<in> set (nodes (processNode e params node segs sc st)) \<Longrightarrow>
     nd \<in> set (nodes st) \<or> (\<exists>n path. nd = nodeData e params n path)"
  "nd \<in> set (nodes (processChildren e params cs i segs sc st)) \<Longrightarrow>
     nd \<in> set (nodes st) \<or> (\<exists>n path. nd = nodeData e params n path)"
proof (induction e params node segs sc st and e params cs i segs sc st
    rule: processNode_processChildren.induct)
  case (1 e params d cs segs sc st)
  let ?st1 = "processNode_enter e params (AXNode d cs) segs sc st"
  have enter: "nd \<in> set (nodes ?st1) \<Longrightarrow> nd \<in> set (nodes st) \<or> (\<exists>n path. nd = nodeData e params n path)"
    by (auto simp: nodes_enter split: if_splits)
  show ?case
  proof (cases "cs \<noteq> [] \<and> \<not> max_nodes params * 5 \<le> length (nodes ?st1)")
    case True
    with 1 enter show ?thesis by auto
  next
    case False
    with 1(2) enter show ?thesis by (auto split: if_splits)
  qed
next
  case (2 e params i segs sc st)
  then show ?case by simp
next
  case (3 e params child rest i segs sc st)
  then show ?case by auto
qed

lemma returned_node_made:
  assumes "semSnapshot e params (Some tree) = Inr r" and "nd \<in> set (pageNodes r)"
  shows "\<exists>n path. nd = nodeData e params n path"
  using page_subset[OF assms(1)] assms(2)
    processNode_nodes_made(1)[of nd e params tree "[]" False snapshot_init]
  by (auto simp: snapshot_init_def)

text \<open>
  Every node that the traversal pushes is the projection of the node at some position of
  the tree it entered, with the path of that position, whatever the scope.
\<close>

lemma processNode_from_tree:
  "nd \<in> set (nodes (processNode e params node segs sc st)) \<Longrightarrow>
     nd \<in> set (nodes st) \<or>
     (\<exists>p n. subtree node p = Some n \<and> nd = nodeData e params n (path_from segs node p))"
  "nd \<in> set (nodes (processChildren e params cs i segs sc st)) \<Longrightarrow>
     nd \<in> set (nodes st) \<or>
     (\<exists>k < length cs. \<exists>p n. subtree (cs ! k) p = Some n \<and>
        nd = nodeData e params n (path_from (segs @ [segment (cs ! k) (i + k)]) (cs ! k) p))"
proof (induction e params node segs sc st and e params cs i segs sc st
    rule: processNode_processChildren.induct)
  case (1 e params d cs segs sc st)
  let ?node = "AXNode d cs"
  let ?st1 = "processNode_enter e params ?node segs sc st"
  let ?from = "\<lambda>node segs. \<exists>p n. subtree node p = Some n \<and> nd = nodeData e params n (path_from segs node p)"
  have self: "nd = nodeData e params ?node segs \<Longrightarrow> ?from ?node segs"
  proof -
    assume "nd = nodeData e params ?node segs"
    then have "subtree ?node [] = Some ?node \<and> nd = nodeData e params ?node (path_from segs ?node [])"
      by simp
    then show ?thesis by blast
  qed
  have enter: "nd \<in> set (nodes ?st1) \<Longrightarrow> nd \<in> set (nodes st) \<or> ?from ?node segs"
    using self by (auto simp: nodes_enter split: if_splits)
  show ?case
  proof (cases "cs \<noteq> [] \<and> \<not> max_nodes params * 5 \<le> length (nodes ?st1)")
    case True
    with 1(2) have "nd \<in> set (nodes (processChildren e params cs 0 segs
        (nextScope (within_sid params) sc (generateSID e ?node frameId segs)) ?st1))"
      by simp
    with 1(1) True have "nd \<in> set (nodes ?st1) \<or>
        (\<exists>k < length cs. ?from (cs ! k) (segs @ [segment (cs ! k) k]))"
      by simp
    then show ?thesis
    proof
      assume "nd \<in> set (nodes ?st1)"
      then show ?thesis by (rule enter)
    next
      assume "\<exists>k < length cs. ?from (cs ! k) (segs @ [segment (cs ! k) k])"
      then obtain k p n where k: "k < length cs" and p: "subtree (cs ! k) p = Some n"
        "nd = nodeData e params n (path_from (segs @ [segment (cs ! k) k]) (cs ! k) p)"
        by blast
      then have "subtree ?node (k # p) = Some n \<and>
                 nd = nodeData e params n (path_from segs ?node (k # p))"
        by simp
      then have "?from ?node segs" by blast
      then show ?thesis ..
    qed
  next
    case False
    with 1(2) have "nd \<in> set (nodes ?st1)" by (auto split: if_splits)
    then show ?thesis by (rule enter)
  qed
next
  case (2 e params i segs sc st)
  then show ?case by simp
next
  case (3 e params child rest i segs sc st)
  let ?from = "\<lambda>node segs. \<exists>p n. subtree node p = Some n \<and> nd = nodeData e params n (path_from segs node p)"
  let ?st' = "processNode e params child (segs @ [segment child i]) sc st"
  from 3(3) have "nd \<in> set (nodes (processChildren e params rest (Suc i) segs sc ?st'))" by simp
  from 3(2)[OF this] show ?case
  proof
    assume "nd \<in> set (nodes ?st')"
    from 3(1)[OF this] show ?thesis
    proof
      assume "nd \<in> set (nodes st)" then show ?thesis ..
    next
      assume "?from child (segs @ [segment child i])"
      then have "0 < length (child # rest) \<and>
          ?from ((child # rest) ! 0) (segs @ [segment ((child # rest) ! 0) (i + 0)])" by simp
      then show ?thesis by blast
    qed
  next
    assume "\<exists>k < length rest. ?from (rest ! k) (segs @ [segment (rest ! k) (Suc i + k)])"
    then obtain k where "k < length rest"
      "?from (rest ! k) (segs @ [segment (rest ! k) (Suc i + k)])" by blast
    then have "Suc k < length (child # rest) \<and>
        ?from ((child # rest) ! Suc k) (segs @ [segment ((child # rest) ! Suc k) (i + Suc k)])"
      by simp
    then show ?thesis by blast
  qed
qed

text \<open>The snippet of a projected node, in terms of the text of its node.\<close>

lemma extractTextSnippet_sourceText:
  "extractTextSnippet node 50 =
     (if truthy (sourceText node)
      then Some (if length (sourceText node) \<le> 50 then sourceText node
                 else take 50 (sourceText node) @ ''...'')
      else None)"
  by (simp add: extractTextSnippet_def sourceText_def Let_def)

lemma nodeData_snippet:
  assumes "n_textSnippet (nodeData e params n path) = Some s"
  shows "''textSnippet'' \<in> set (p_fields params) \<and> truthy (sourceText n) \<and>
         s = (if length (sourceText n) \<le> 50 then sourceText n
              else take 50 (sourceText n) @ ''...'')"
  using assms
  by (auto simp: nodeData_def Let_def extractTextSnippet_sourceText split: if_splits)

section \<open>Projected fields\<close>

text \<open>
  Claim C7, as amended. Every node that the projector materializes during a snapshot, and
  so every node of a returned page, is the projection of the node \<open>n\<close> at some position of
  the tree; its text snippet, when present, was requested by the field list and is the
  source text of \<open>n\<close> (the first non-empty one of name, description and value) itself when
  that has at most 50 characters, and otherwise the first 50 characters of that text
  followed by the three characters \<open>...\<close>. So a snippet has at most 53 characters, and more
  than 50 exactly when the source text has more than 50.
\<close>

theorem snippet_bound_amended:
  assumes "nd \<in> set (nodes (processNode e params tree [] False snapshot_init))
           \<or> nd \<in> returned_nodes (semSnapshot e params (Some tree))"
    and "n_textSnippet nd = Some s"
  shows "\<exists>p n. subtree tree p = Some n \<and> nd = nodeData e params n (path_from [] tree p) \<and>
           ''textSnippet'' \<in> set (p_fields params) \<and> sourceText n \<noteq> [] \<and>
           s = (if length (sourceText n) \<le> 50 then sourceText n
                else take 50 (sourceText n) @ ''...'') \<and>
           length s \<le> 53 \<and> (50 < length s) = (50 < length (sourceText n))"
proof -
  have "nd \<in> set (nodes (processNode e params tree [] False snapshot_init))"
    using assms(1)
  proof
    assume "nd \<in> returned_nodes (semSnapshot e params (Some tree))"
    then obtain r where "semSnapshot e params (Some tree) = Inr r" "nd \<in> set (pageNodes r)"
      by (auto simp: returned_nodes_def split: sum.splits)
    with page_subset show ?thesis by blast
  qed
  from processNode_from_tree(1)[OF this] obtain p n where
    n: "subtree tree p = Some n" "nd = nodeData e params n (path_from [] tree p)"
    by (auto simp: snapshot_init_def)
  from assms(2) n(2) have s: "''textSnippet'' \<in> set (p_fields params)" "truthy (sourceText n)"
    "s = (if length (sourceText n) \<le> 50 then sourceText n else take 50 (sourceText n) @ ''...'')"
    using nodeData_snippet[of e params n "path_from [] tree p" s] by simp_all
  from s(2) have t: "sourceText n \<noteq> []" by (simp add: truthy_def)
  from s(3) have "length s \<le> 53" "(50 < length s) = (50 < length (sourceText n))"
    by (simp_all split: if_splits)
  with n s(1,3) t show ?thesis by blast
qed

theorem snippet_bound_amended_witness:
  "(heading_data \<in> set (nodes (processNode example_env snapshot_defaults longHeading [] False
                                  snapshot_init))
      \<or> heading_data \<in> returned_nodes (semSnapshot example_env snapshot_defaults
                                           (Some longHeading)))
   \<and> n_textSnippet heading_data = Some ''Quarterly report of the committee on accessibility...''
   \<and> sourceText longHeading = ''Quarterly report of the committee on accessibility audits''
   \<and> (\<exists>p n. subtree longHeading p = Some n
          \<and> heading_data = nodeData example_env snapshot_defaults n (path_from [] longHeading p)
          \<and> ''textSnippet'' \<in> set (p_fields snapshot_defaults) \<and> sourceText n \<noteq> []
          \<and> ''Quarterly report of the committee on accessibility...''
              = (if length (sourceText n) \<le> 50 then sourceText n
                 else take 50 (sourceText n) @ ''...'')
          \<and> length ''Quarterly report of the committee on accessibility...'' \<le> 53
          \<and> (50 < length ''Quarterly report of the committee on accessibility...'')
              = (50 < length (sourceText n)))
   \<and> (submit_data \<in> set (nodes (processNode example_env small_pages loginForm [] False
                                    snapshot_init))
      \<or> submit_data \<in> returned_nodes (semSnapshot example_env small_pages (Some loginForm)))
   \<and> n_textSnippet submit_data = Some ''Submit''
   \<and> (\<exists>p n. subtree loginForm p = Some n
          \<and> submit_data = nodeData example_env small_pages n (path_from [] loginForm p)
          \<and> ''textSnippet'' \<in> set (p_fields small_pages) \<and> sourceText n \<noteq> []
          \<and> ''Submit'' = (if length (sourceText n) \<le> 50 then sourceText n
                           else take 50 (sourceText n) @ ''...'')
          \<and> length ''Submit'' \<le> 53
          \<and> (50 < length ''Submit'') = (50 < length (sourceText n)))"
proof -
  have h1: "heading_data \<in> set (nodes (processNode example_env snapshot_defaults longHeading []
                                         False snapshot_init))
            \<or> heading_data \<in> returned_nodes (semSnapshot example_env snapshot_defaults
                                                 (Some longHeading))"
    by code_simp
  have h2: "n_textSnippet heading_data
              = Some ''Quarterly report of the committee on accessibility...''"
    by (simp add: heading_data_def)
  have h3: "sourceText longHeading
              = ''Quarterly report of the committee on accessibility audits''"
    by code_simp
  have g1: "submit_data \<in> set (nodes (processNode example_env small_pages loginForm [] False
                                        snapshot_init))
            \<or> submit_data \<in> returned_nodes (semSnapshot example_env small_pages
                                                (Some loginForm))"
    by code_simp
  have g2: "n_textSnippet submit_data = Some ''Submit''"
    by (simp add: submit_data_def)
  from snippet_bound_amended[OF h1 h2] snippet_bound_amended[OF g1 g2] h1 h2 h3 g1 g2
  show ?thesis by blast
qed

text \<open>
  Claim C7 as stated fails: the heading of 57 characters is materialized, and returned,
  with a snippet of 53 characters, which is more than 50.
\<close>

theorem snippet_longer_than_50:
  "heading_data \<in> set (nodes (processNode example_env snapshot_defaults longHeading [] False
                                 snapshot_init))
   \<and> heading_data \<in> returned_nodes (semSnapshot example_env snapshot_defaults (Some longHeading))
   \<and> \<not> (case n_textSnippet heading_data of None \<Rightarrow> True | Some s \<Rightarrow> length s \<le> 50)"
  by code_simp

text \<open>
  Claim C8, as amended. The bounds of every returned node are the constant placeholder
  \<open>{x: 0, y: 0, width: 100, height: 20}\<close> of \<open>getElementBounds\<close> when the field list has
  \<open>bounds\<close>, and absent otherwise; no geometry of the tree provider is read.
\<close>

theorem bounds_placeholder_amended:
  assumes "semSnapshot e params (Some tree) = Inr r"
    and "nd \<in> set (pageNodes r)"
  shows "n_bounds nd =
    (if ''bounds'' \<in> set (p_fields params)
     then Some \<lparr>b_x = 0, b_y = 0, b_width = 100, b_height = 20\<rparr> else None)"
proof -
  from returned_node_made[OF assms(1,2)] obtain n path where "nd = nodeData e params n path"
    by blast
  then show ?thesis
    by (simp add: nodeData_def Let_def getElementBounds_def)
qed

theorem bounds_placeholder_amended_witness:
  "semSnapshot example_env snapshot_defaults (Some framedButton)
     = Inr \<lparr>snapshot_id = ''snap_k3x9ab'', pageNodes = [framed_data], next_cursor = None\<rparr>
   \<and> framed_data \<in> set (pageNodes \<lparr>snapshot_id = ''snap_k3x9ab'', pageNodes = [framed_data],
                                     next_cursor = None\<rparr>)
   \<and> ''bounds'' \<in> set (p_fields snapshot_defaults)
   \<and> n_bounds framed_data = Some \<lparr>b_x = 0, b_y = 0, b_width = 100, b_height = 20\<rparr>"
proof -
  have h1: "semSnapshot example_env snapshot_defaults (Some framedButton)
     = Inr \<lparr>snapshot_id = ''snap_k3x9ab'', pageNodes = [framed_data], next_cursor = None\<rparr>"
    by code_simp
  have h2: "framed_data \<in> set (pageNodes \<lparr>snapshot_id = ''snap_k3x9ab'',
              pageNodes = [framed_data], next_cursor = None\<rparr>)"
    by simp
  have h3: "''bounds'' \<in> set (p_fields snapshot_defaults)"
    by (simp add: snapshot_defaults_def all_fields_def)
  from bounds_placeholder_amended[OF h1 h2] h1 h2 h3 show ?thesis
    by simp
qed

text \<open>
  Claim C8 as stated fails: the tree provider supplies the geometry
  \<open>{x: 10, y: 20, width: 30, height: 40}\<close> for the button, and the returned bounds are
  not that geometry.
\<close>

theorem bounds_not_from_provider:
  "framed_data \<in> returned_nodes (semSnapshot example_env snapshot_defaults (Some framedButton))
   \<and> n_bounds framed_data \<noteq> geometry (data framedButton)"
  by code_simp

section \<open>Scope\<close>

subsection \<open>Query: origin\<close>

lemma matches_enter:
  "matches (searchNode_enter e params node segs sc st) =
     matches st @
     (if includeNode (q_within_sid params) sc (generateSID e node frameId segs)
      then (case scoreNode params node of
              Inl msg \<Rightarrow> []
            | Inr (s, reasons) \<Rightarrow>
                if 0 < s \<and> (truthy (getAXString (role (data node)))
                             \<or> truthy (getAXString (name (data node)))
                             \<or> truthy (getAXString (description (data node))))
                then [queryMatch e node segs s] else [])
      else [])"
  by (auto simp: searchNode_enter_def Let_def case_prod_unfold split: sum.splits)

lemma thrown_enter:
  "thrown (searchNode_enter e params node segs sc st) =
     (if includeNode (q_within_sid params) sc (generateSID e node frameId segs)
      then (case scoreNode params node of Inl msg \<Rightarrow> Some msg | Inr x \<Rightarrow> thrown st)
      else thrown st)"
  by (auto simp: searchNode_enter_def Let_def case_prod_unfold split: sum.splits)

lemma new_match_enter:
  assumes "m \<in> set (matches (searchNode_enter e params node segs sc st))"
    and "m \<notin> set (matches st)"
  shows "includeNode (q_within_sid params) sc (generateSID e node frameId segs)"
    and "\<exists>s. m = queryMatch e node segs s"
proof -
  show inc: "includeNode (q_within_sid params) sc (generateSID e node frameId segs)"
    using assms
    by (cases "includeNode (q_within_sid params) sc (generateSID e node frameId segs)")
       (simp_all add: matches_enter)
  show "\<exists>s. m = queryMatch e node segs s"
  proof (cases "scoreNode params node")
    case (Inl msg)
    with assms inc show ?thesis by (simp add: matches_enter)
  next
    case (Inr sr)
    obtain s reasons where "sr = (s, reasons)" by (cases sr)
    with Inr assms inc show ?thesis
      by (cases "0 < s \<and> (truthy (getAXString (role (data node)))
                             \<or> truthy (getAXString (name (data node)))
                             \<or> truthy (getAXString (description (data node))))")
         (auto simp: matches_enter)
  qed
qed

lemma searchNode_stems:
  assumes w: "q_within_sid params = Some S" "S \<noteq> []"
  shows "m \<in> set (matches (searchNode e params node segs sc st)) \<Longrightarrow>
           m \<in> set (matches st) \<or>
           stems_from (\<lambda>n path x. \<exists>s. x = queryMatch e n path s) e S node segs sc m"
    and "m \<in> set (matches (searchChildren e params cs i segs sc st)) \<Longrightarrow>
           m \<in> set (matches st) \<or>
           (\<exists>k < length cs. stems_from (\<lambda>n path x. \<exists>s. x = queryMatch e n path s) e S (cs ! k)
                              (segs @ [segment (cs ! k) (i + k)]) sc m)"
  using w
proof (induction e params node segs sc st and e params cs i segs sc st
    rule: searchNode_searchChildren.induct)
  case (1 e params d cs segs sc st)
  let ?node = "AXNode d cs"
  let ?st1 = "searchNode_enter e params ?node segs sc st"
  let ?made = "\<lambda>n path x. \<exists>s. x = queryMatch e n path s"
  let ?sc' = "sc \<or> generateSID e ?node frameId segs = S"
  have enter: "m \<in> set (matches st) \<or> stems_from ?made e S ?node segs sc m"
    if "m \<in> set (matches ?st1)"
  proof (cases "m \<in> set (matches st)")
    case True
    then show ?thesis ..
  next
    case False
    with that 1(3,4) have "?sc'" and "\<exists>s. m = queryMatch e ?node segs s"
      using new_match_enter[of m e params ?node segs sc st] by (simp_all add: scope_given)
    then have "stems_from ?made e S ?node segs sc m"
      by (intro stems_self) auto
    then show ?thesis ..
  qed
  show ?case
  proof (cases "thrown ?st1 = None \<and> cs \<noteq> []")
    case True
    with 1(2,3,4) have "m \<in> set (matches (searchChildren e params cs 0 segs ?sc' ?st1))"
      by (simp add: scope_given)
    with 1(1) True 1(3,4) have "m \<in> set (matches ?st1) \<or>
        (\<exists>k < length cs. stems_from ?made e S (cs ! k) (segs @ [segment (cs ! k) k]) ?sc' m)"
      by (simp add: scope_given)
    then show ?thesis
    proof
      assume "m \<in> set (matches ?st1)"
      then show ?thesis by (rule enter)
    next
      assume "\<exists>k < length cs. stems_from ?made e S (cs ! k) (segs @ [segment (cs ! k) k]) ?sc' m"
      then obtain k where "k < length (children ?node)"
        "stems_from ?made e S (children ?node ! k) (segs @ [segment (children ?node ! k) k]) ?sc' m"
        by auto
      then have "stems_from ?made e S ?node segs sc m" by (rule stems_child)
      then show ?thesis ..
    qed
  next
    case False
    with 1(2) have "m \<in> set (matches ?st1)" by (auto split: if_splits)
    then show ?thesis by (rule enter)
  qed
next
  case (2 e params i segs sc st)
  then show ?case by simp
next
  case (3 e params child rest i segs sc st)
  let ?made = "\<lambda>n path x. \<exists>s. x = queryMatch e n path s"
  let ?st' = "searchNode e params child (segs @ [segment child i]) sc st"
  have first: "m \<in> set (matches ?st') \<Longrightarrow> ?case"
  proof -
    assume "m \<in> set (matches ?st')"
    from 3(1)[OF this 3(6,7)] show ?thesis
    proof
      assume "m \<in> set (matches st)" then show ?thesis ..
    next
      assume "stems_from ?made e S child (segs @ [segment child i]) sc m"
      then have "0 < length (child # rest) \<and> stems_from ?made e S ((child # rest) ! 0)
          (segs @ [segment ((child # rest) ! 0) (i + 0)]) sc m" by simp
      then show ?thesis by blast
    qed
  qed
  show ?case
  proof (cases "thrown ?st' = None")
    case False
    with 3(5) have "m \<in> set (matches ?st')" by simp
    then show ?thesis by (rule first)
  next
    case True
    with 3(5) have "m \<in> set (matches (searchChildren e params rest (Suc i) segs sc ?st'))" by simp
    with 3(4,6,7) True have "m \<in> set (matches ?st') \<or>
        (\<exists>k < length rest. stems_from ?made e S (rest ! k)
                            (segs @ [segment (rest ! k) (Suc i + k)]) sc m)"
      by simp
    then show ?thesis
    proof
      assume "m \<in> set (matches ?st')"
      then show ?thesis by (rule first)
    next
      assume "\<exists>k < length rest. stems_from ?made e S (rest ! k) (segs @ [segment (rest ! k) (Suc i + k)]) sc m"
      then obtain k where "k < length rest"
        "stems_from ?made e S (rest ! k) (segs @ [segment (rest ! k) (Suc i + k)]) sc m" by blast
      then have "Suc k < length (child # rest) \<and> stems_from ?made e S ((child # rest) ! Suc k)
            (segs @ [segment ((child # rest) ! Suc k) (i + Suc k)]) sc m" by simp
      then show ?thesis by blast
    qed
  qed
qed

lemma set_insert_by: "set (insert_by cmp a xs) = insert a (set xs)"
  by (induction xs) auto

lemma set_sort_by: "set (sort_by cmp xs) = set xs"
  unfolding sort_by_def by (induction xs) (simp_all add: set_insert_by)

lemma set_rank: "set (rank e ranking ms) = set ms"
  by (cases ranking) (simp_all add: rank_def set_sort_by)

lemma elements_subset:
  assumes "semQuery e params (Some tree) = Inr r"
  shows "set (elements r) \<subseteq> set (matches (searchNode e params tree [] False query_init))"
proof -
  let ?ms = "matches (searchNode e params tree [] False query_init)"
  let ?lim = "take (q_max params) (rank e (rank_by params) ?ms)"
  have lim: "set ?lim \<subseteq> set ?ms"
    using set_take_subset[of "q_max params" "rank e (rank_by params) ?ms"] by (simp add: set_rank)
  from assms have "set (elements r) \<subseteq> set ?lim"
    by (auto simp: semQuery_def Let_def split: option.splits list.splits if_splits)
  with lim show ?thesis by blast
qed

lemma stems_top:
  assumes "stems_from made e S tree [] False x"
  shows "\<exists>p n. subtree tree p = Some n \<and> made n (path_from [] tree p) x \<and> within_scope e tree S p"
proof -
  from assms obtain p n q m where p: "subtree tree p = Some n" "made n (path_from [] tree p) x"
    and q: "prefix q p" "subtree tree q = Some m" "generateSID e m frameId (path_from [] tree q) = S"
    unfolding stems_from_def by blast
  from q have "q \<in> set (prefixes p)" "sid_at e tree q = Some S"
    by (simp_all add: sid_at_def)
  then have "within_scope e tree S p"
    unfolding within_scope_def list_ex_iff by blast
  with p show ?thesis by blast
qed

subsection \<open>Snapshot: the walk without the early return\<close>

lemma nodeData_within:
  "nodeData e (params\<lparr>within_sid := w\<rparr>) node segs = nodeData e params node segs"
  by (simp add: nodeData_def)

lemma nodes_grow:
  "\<exists>new. nodes (processNode e params node segs sc st) = nodes st @ new"
  "\<exists>new. nodes (processChildren e params cs i segs sc st) = nodes st @ new"
proof (induction e params node segs sc st and e params cs i segs sc st
    rule: processNode_processChildren.induct)
  case (1 e params d cs segs sc st)
  let ?st1 = "processNode_enter e params (AXNode d cs) segs sc st"
  have "\<exists>new. nodes ?st1 = nodes st @ new" by (simp add: nodes_enter)
  with 1 show ?case by (cases "cs \<noteq> [] \<and> \<not> max_nodes params * 5 \<le> length (nodes ?st1)") auto
next
  case (2 e params i segs sc st)
  show ?case by simp
next
  case (3 e params child rest i segs sc st)
  then show ?case by auto
qed

lemma nodes_length_mono:
  "length (nodes st) \<le> length (nodes (processNode e params node segs sc st))"
  "length (nodes st) \<le> length (nodes (processChildren e params cs i segs sc st))"
  using nodes_grow(1)[of e params node segs sc st] nodes_grow(2)[of e params cs i segs sc st]
  by auto

lemma collect_enter:
  "nodes (processNode_enter e params node segs sc st)
     = nodes st @ nodes (processNode_enter e params node segs sc snapshot_init)"
  by (simp add: nodes_enter snapshot_init_def)

text \<open>A walk that ends below the threshold never took the early return.\<close>

lemma below_threshold_complete:
  "length (nodes (processNode e params node segs sc st)) < max_nodes params * 5 \<Longrightarrow>
     nodes (processNode e params node segs sc st) = nodes st @ collectNode e params node segs sc"
  "length (nodes (processChildren e params cs i segs sc st)) < max_nodes params * 5 \<Longrightarrow>
     nodes (processChildren e params cs i segs sc st) = nodes st @ collectChildren e params cs i segs sc"
proof (induction e params node segs sc st and e params cs i segs sc st
    rule: processNode_processChildren.induct)
  case (1 e params d cs segs sc st)
  let ?st1 = "processNode_enter e params (AXNode d cs) segs sc st"
  show ?case
  proof (cases "cs = []")
    case True
    then show ?thesis using collect_enter[of e params "AXNode d cs" segs sc st] by simp
  next
    case False
    have le: "length (nodes ?st1) \<le> length (nodes (processNode e params (AXNode d cs) segs sc st))"
      using False nodes_length_mono(2)[of ?st1 e params cs 0 segs] by simp
    with 1(2) have nocut: "\<not> max_nodes params * 5 \<le> length (nodes ?st1)" by simp
    with False 1 show ?thesis
      using collect_enter[of e params "AXNode d cs" segs sc st] by simp
  qed
next
  case (2 e params i segs sc st)
  show ?case by simp
next
  case (3 e params child rest i segs sc st)
  let ?st' = "processNode e params child (segs @ [segment child i]) sc st"
  from 3(3) have b: "length (nodes (processChildren e params rest (Suc i) segs sc ?st'))
      < max_nodes params * 5" by simp
  have "length (nodes ?st') \<le> length (nodes (processChildren e params rest (Suc i) segs sc ?st'))"
    by (rule nodes_length_mono)
  with b have a: "length (nodes ?st') < max_nodes params * 5" by simp
  from 3(1)[OF a] 3(2)[OF b] show ?case by simp
qed

text \<open>A walk whose complete result stays below the threshold is complete.\<close>

lemma complete_below_threshold:
  "length (nodes st) + length (collectNode e params node segs sc) < max_nodes params * 5 \<Longrightarrow>
     nodes (processNode e params node segs sc st) = nodes st @ collectNode e params node segs sc"
  "length (nodes st) + length (collectChildren e params cs i segs sc) < max_nodes params * 5 \<Longrightarrow>
     nodes (processChildren e params cs i segs sc st) = nodes st @ collectChildren e params cs i segs sc"
proof (induction e params node segs sc st and e params cs i segs sc st
    rule: processNode_processChildren.induct)
  case (1 e params d cs segs sc st)
  let ?st1 = "processNode_enter e params (AXNode d cs) segs sc st"
  let ?self = "nodes (processNode_enter e params (AXNode d cs) segs sc snapshot_init)"
  have st1: "nodes ?st1 = nodes st @ ?self" by (rule collect_enter)
  show ?case
  proof (cases "cs = []")
    case True
    then show ?thesis using st1 by simp
  next
    case False
    from 1(2) st1 have nocut: "\<not> max_nodes params * 5 \<le> length (nodes ?st1)" by simp
    from 1(2) st1 have "length (nodes ?st1) + length (collectChildren e params cs 0 segs
        (nextScope (within_sid params) sc (generateSID e (AXNode d cs) frameId segs)))
        < max_nodes params * 5" by simp
    with 1(1) False nocut st1 show ?thesis by simp
  qed
next
  case (2 e params i segs sc st)
  show ?case by simp
next
  case (3 e params child rest i segs sc st)
  let ?st' = "processNode e params child (segs @ [segment child i]) sc st"
  from 3(3) have a: "length (nodes st) + length (collectNode e params child (segs @ [segment child i]) sc)
      < max_nodes params * 5" by simp
  from 3(1)[OF a] have st': "nodes ?st' = nodes st @ collectNode e params child (segs @ [segment child i]) sc" .
  with 3(3) have b: "length (nodes ?st') + length (collectChildren e params rest (Suc i) segs sc)
      < max_nodes params * 5" by simp
  from 3(2)[OF b] st' show ?case by simp
qed

lemma collect_subseq:
  "subseq (collectNode e params node segs sc)
          (collectNode e (params\<lparr>within_sid := None\<rparr>) node segs sc')"
  "subseq (collectChildren e params cs i segs sc)
          (collectChildren e (params\<lparr>within_sid := None\<rparr>) cs i segs sc')"
proof (induction e params node segs sc and e params cs i segs sc arbitrary: sc' and sc'
    rule: collectNode_collectChildren.induct)
  case (1 e params d cs segs sc)
  have "subseq (nodes (processNode_enter e params (AXNode d cs) segs sc snapshot_init))
          (nodes (processNode_enter e (params\<lparr>within_sid := None\<rparr>) (AXNode d cs) segs sc' snapshot_init))"
    by (simp add: nodes_enter snapshot_init_def nodeData_within includeNode_def given_def)
  with 1 show ?case
    by (simp add: list_emb_append_mono)
next
  case (2 e params i segs sc)
  show ?case by simp
next
  case (3 e params child rest i segs sc)
  then show ?case by (simp add: list_emb_append_mono)
qed

lemma scoped_nodes_subset:
  assumes "length (nodes (processNode e (params\<lparr>within_sid := None\<rparr>) tree [] False snapshot_init))
             < max_nodes params * 5"
  shows "subseq (nodes (processNode e params tree [] False snapshot_init))
           (nodes (processNode e (params\<lparr>within_sid := None\<rparr>) tree [] False snapshot_init))"
proof -
  let ?U = "params\<lparr>within_sid := None\<rparr>"
  have u: "nodes (processNode e ?U tree [] False snapshot_init) = collectNode e ?U tree [] False"
    using below_threshold_complete(1)[of e ?U tree "[]" False snapshot_init] assms
    by (simp add: snapshot_init_def)
  have sub: "subseq (collectNode e params tree [] False) (collectNode e ?U tree [] False)"
    by (rule collect_subseq)
  then have "length (collectNode e params tree [] False) \<le> length (collectNode e ?U tree [] False)"
    by (rule list_emb_length)
  with assms u have "length (nodes snapshot_init) + length (collectNode e params tree [] False)
      < max_nodes params * 5" by (simp add: snapshot_init_def)
  then have "nodes (processNode e params tree [] False snapshot_init)
      = nodes snapshot_init @ collectNode e params tree [] False"
    by (rule complete_below_threshold)
  with u sub show ?thesis by (simp add: snapshot_init_def)
qed

subsection \<open>Query: scoped and unscoped traversal side by side\<close>

lemma scoreNode_within:
  "scoreNode (params\<lparr>q_within_sid := w\<rparr>) node = scoreNode params node"
  by (simp add: scoreNode_def scoreRole_def scoreLabel_def scoreText_def)

lemma includeNode_None: "includeNode None sc sid" "nextScope None sc sid"
  by (simp_all add: includeNode_def nextScope_def given_def)

lemma enter_pair:
  assumes u: "thrown (searchNode_enter e (params\<lparr>q_within_sid := None\<rparr>) node segs scu stu) = None"
    and s: "thrown sts = None"
    and sub: "subseq (matches sts) (matches stu)"
  shows "thrown (searchNode_enter e params node segs scs sts) = None"
    and "subseq (matches (searchNode_enter e params node segs scs sts))
           (matches (searchNode_enter e (params\<lparr>q_within_sid := None\<rparr>) node segs scu stu))"
proof -
  from u obtain sr where sr: "scoreNode params node = Inr sr"
    by (cases "scoreNode params node")
       (simp_all add: thrown_enter includeNode_None scoreNode_within)
  show "thrown (searchNode_enter e params node segs scs sts) = None"
    using s sr by (simp add: thrown_enter)
  let ?new = "case sr of (s, reasons) \<Rightarrow>
                if 0 < s \<and> (truthy (getAXString (role (data node)))
                             \<or> truthy (getAXString (name (data node)))
                             \<or> truthy (getAXString (description (data node))))
                then [queryMatch e node segs s] else []"
  have mu: "matches (searchNode_enter e (params\<lparr>q_within_sid := None\<rparr>) node segs scu stu)
      = matches stu @ ?new"
    using sr by (simp add: matches_enter includeNode_None scoreNode_within)
  have ms: "matches (searchNode_enter e params node segs scs sts)
      = matches sts @ (if includeNode (q_within_sid params) scs (generateSID e node frameId segs)
                       then ?new else [])"
    using sr by (simp add: matches_enter)
  have "subseq (if includeNode (q_within_sid params) scs (generateSID e node frameId segs)
                then ?new else []) ?new"
    by simp
  with sub show "subseq (matches (searchNode_enter e params node segs scs sts))
           (matches (searchNode_enter e (params\<lparr>q_within_sid := None\<rparr>) node segs scu stu))"
    unfolding mu ms by (rule list_emb_append_mono)
qed

lemma search_pair:
  "thrown (searchNode e (params\<lparr>q_within_sid := None\<rparr>) node segs scu stu) = None \<Longrightarrow>
   thrown sts = None \<Longrightarrow> subseq (matches sts) (matches stu) \<Longrightarrow>
     thrown (searchNode e params node segs scs sts) = None
     \<and> subseq (matches (searchNode e params node segs scs sts))
          (matches (searchNode e (params\<lparr>q_within_sid := None\<rparr>) node segs scu stu))"
  "thrown (searchChildren e (params\<lparr>q_within_sid := None\<rparr>) cs i segs scu stu) = None \<Longrightarrow>
   thrown sts = None \<Longrightarrow> subseq (matches sts) (matches stu) \<Longrightarrow>
     thrown (searchChildren e params cs i segs scs sts) = None
     \<and> subseq (matches (searchChildren e params cs i segs scs sts))
          (matches (searchChildren e (params\<lparr>q_within_sid := None\<rparr>) cs i segs scu stu))"
proof (induction e params node segs scs sts and e params cs i segs scs sts
    arbitrary: scu stu and scu stu rule: searchNode_searchChildren.induct)
  case (1 e params d cs segs scs sts)
  let ?U = "params\<lparr>q_within_sid := None\<rparr>"
  let ?eu = "searchNode_enter e ?U (AXNode d cs) segs scu stu"
  let ?es = "searchNode_enter e params (AXNode d cs) segs scs sts"
  from 1(2) have tu: "thrown ?eu = None"
    by (cases "thrown ?eu = None") (simp_all split: if_splits)
  from enter_pair[OF tu 1(3,4)] have ts: "thrown ?es = None"
    and sub: "subseq (matches ?es) (matches ?eu)" by simp_all
  show ?case
  proof (cases "cs = []")
    case True
    with tu ts sub show ?thesis by simp
  next
    case False
    from 1(2) tu False have fu: "thrown (searchChildren e ?U cs 0 segs
        (nextScope (q_within_sid ?U) scu (generateSID e (AXNode d cs) frameId segs)) ?eu) = None"
      by simp
    from 1(1)[OF _ False fu ts sub] ts have
      "thrown (searchChildren e params cs 0 segs
          (nextScope (q_within_sid params) scs (generateSID e (AXNode d cs) frameId segs)) ?es) = None
       \<and> subseq (matches (searchChildren e params cs 0 segs
          (nextScope (q_within_sid params) scs (generateSID e (AXNode d cs) frameId segs)) ?es))
          (matches (searchChildren e ?U cs 0 segs
        (nextScope (q_within_sid ?U) scu (generateSID e (AXNode d cs) frameId segs)) ?eu))"
      by simp
    with tu ts False show ?thesis by simp
  qed
next
  case (2 e params i segs scs sts)
  then show ?case by simp
next
  case (3 e params child rest i segs scs sts)
  let ?U = "params\<lparr>q_within_sid := None\<rparr>"
  let ?u' = "searchNode e ?U child (segs @ [segment child i]) scu stu"
  let ?s' = "searchNode e params child (segs @ [segment child i]) scs sts"
  from 3(5) have tu: "thrown ?u' = None"
    by (cases "thrown ?u' = None") (simp_all split: if_splits)
  from 3(1)[OF tu 3(6,7)] have ts: "thrown ?s' = None"
    and sub: "subseq (matches ?s') (matches ?u')" by simp_all
  from 3(5) tu have fu: "thrown (searchChildren e ?U rest (Suc i) segs scu ?u') = None"
    by simp
  from 3(4)[OF _ fu ts sub] ts have
    "thrown (searchChildren e params rest (Suc i) segs scs ?s') = None
     \<and> subseq (matches (searchChildren e params rest (Suc i) segs scs ?s'))
          (matches (searchChildren e ?U rest (Suc i) segs scu ?u'))"
    by simp
  with tu ts show ?case by simp
qed

lemma scoped_matches_subset:
  assumes "thrown (searchNode e (params\<lparr>q_within_sid := None\<rparr>) tree [] False query_init) = None"
  shows "thrown (searchNode e params tree [] False query_init) = None"
    and "subseq (matches (searchNode e params tree [] False query_init))
           (matches (searchNode e (params\<lparr>q_within_sid := None\<rparr>) tree [] False query_init))"
  using search_pair(1)[OF assms, of query_init False] by (simp_all add: query_init_def)

lemma subseq_set_subset: "subseq xs ys \<Longrightarrow> set xs \<subseteq> set ys"
  by (induction rule: list_emb.induct) auto

subsection \<open>A call that returns all it found\<close>

lemma length_insert_by: "length (insert_by cmp a xs) = Suc (length xs)"
  by (induction xs) auto

lemma length_sort_by: "length (sort_by cmp xs) = length xs"
  unfolding sort_by_def by (induction xs) (simp_all add: length_insert_by)

lemma length_rank: "length (rank e ranking ms) = length ms"
  by (cases ranking) (simp_all add: rank_def length_sort_by)

lemma semQuery_Inr:
  assumes "semQuery e params (Some tree) = Inr r"
  shows "thrown (searchNode e params tree [] False query_init) = None"
  using assms by (auto simp: semQuery_def Let_def split: option.splits)

lemma elements_multiple:
  assumes "semQuery e params (Some tree) = Inr r" and "multiple params"
  shows "elements r = take (q_max params)
           (rank e (rank_by params) (matches (searchNode e params tree [] False query_init)))"
  using assms by (auto simp: semQuery_def Let_def split: option.splits list.splits)

lemma single_page_all:
  assumes "cursor params = None"
    and "semSnapshot e params (Some tree) = Inr r"
    and "next_cursor r = None"
  shows "pageNodes r = nodes (processNode e params tree [] False snapshot_init)"
    and "length (nodes (processNode e params tree [] False snapshot_init)) \<le> max_nodes params"
proof -
  let ?all = "nodes (processNode e params tree [] False snapshot_init)"
  show le: "length ?all \<le> max_nodes params"
    using assms
    by (auto simp: semSnapshot_Some startIndex_def js_add_def js_min_def js_less_def min_def
        split: if_splits)
  from semSnapshot_single_page[OF assms(1) le] assms(2) show "pageNodes r = ?all"
    by simp
qed

lemma returned_scoped_nodes_subset:
  assumes m: "1 \<le> max_nodes params" and c: "cursor params = None"
    and u: "semSnapshot e (params\<lparr>within_sid := None\<rparr>) (Some tree) = Inr ru"
    and n: "next_cursor ru = None"
    and s: "semSnapshot e params (Some tree) = Inr rs"
  shows "set (pageNodes rs) \<subseteq> set (pageNodes ru)"
proof -
  let ?U = "params\<lparr>within_sid := None\<rparr>"
  have cu: "cursor ?U = None" using c by simp
  from single_page_all[OF cu u n]
  have all: "pageNodes ru = nodes (processNode e ?U tree [] False snapshot_init)"
    and le: "length (nodes (processNode e ?U tree [] False snapshot_init)) \<le> max_nodes params"
    by simp_all
  from le m have "length (nodes (processNode e ?U tree [] False snapshot_init)) < max_nodes params * 5"
    by simp
  then have "subseq (nodes (processNode e params tree [] False snapshot_init))
      (nodes (processNode e ?U tree [] False snapshot_init))"
    by (rule scoped_nodes_subset)
  then have "set (nodes (processNode e params tree [] False snapshot_init))
      \<subseteq> set (nodes (processNode e ?U tree [] False snapshot_init))"
    by (rule subseq_set_subset)
  with page_subset[OF s] all show ?thesis by simp
qed

lemma returned_scoped_matches_subset:
  assumes m: "multiple params"
    and l: "length (matches (searchNode e (params\<lparr>q_within_sid := None\<rparr>) tree [] False query_init))
              \<le> q_max params"
    and u: "semQuery e (params\<lparr>q_within_sid := None\<rparr>) (Some tree) = Inr ru"
    and s: "semQuery e params (Some tree) = Inr rs"
  shows "set (elements rs) \<subseteq> set (elements ru)"
proof -
  let ?U = "params\<lparr>q_within_sid := None\<rparr>"
  let ?mu = "matches (searchNode e ?U tree [] False query_init)"
  have "elements ru = take (q_max params) (rank e (rank_by params) ?mu)"
    using elements_multiple[OF u] m by simp
  with l have "set (elements ru) = set ?mu"
    by (simp add: length_rank set_rank)
  moreover have "subseq (matches (searchNode e params tree [] False query_init)) ?mu"
    using scoped_matches_subset(2)[OF semQuery_Inr[OF u]] .
  then have "set (matches (searchNode e params tree [] False query_init)) \<subseteq> set ?mu"
    by (rule subseq_set_subset)
  ultimately show ?thesis using elements_subset[OF s] by blast
qed

subsection \<open>The claim\<close>

text \<open>
  Claim C1, as amended. Let \<open>S\<close> be a \<open>within_sid\<close> that is not empty. Every node that
  \<open>sem_snapshot\<close> returns and every match that \<open>sem_query\<close> returns under scope \<open>S\<close> was
  made from a tree node that is a descendant of, or equal to, a node whose derived SID is
  \<open>S\<close>. The nodes returned under scope \<open>S\<close> are a subset of the nodes returned without
  \<open>within_sid\<close> when the unscoped call returns its whole list in one page (no cursor, no
  next cursor); the matches returned under scope \<open>S\<close> are a subset of the matches returned
  without \<open>within_sid\<close> when \<open>multiple\<close> is set and the unscoped query found at most \<open>max\<close>
  matches. Beneath the returned slices: the list of nodes materialized under scope \<open>S\<close>
  (the list the pages are cut from) is a subset of the list materialized without
  \<open>within_sid\<close>, provided the unscoped list has fewer than \<open>5 * max_nodes\<close> entries; and the
  matches collected under scope \<open>S\<close>, before ranking and cutting to \<open>max\<close>, are a subset of
  the matches collected without \<open>within_sid\<close>, provided the unscoped traversal does not
  throw; then the scoped one does not throw either.
\<close>

theorem scope_restriction_amended:
  assumes "within_sid params = Some S" and "q_within_sid qparams = Some S" and "S \<noteq> []"
  shows
    "(\<forall>r nd. semSnapshot e params (Some tree) = Inr r \<and> nd \<in> set (pageNodes r) \<longrightarrow>
        (\<exists>p n. subtree tree p = Some n \<and> nd = nodeData e params n (path_from [] tree p)
               \<and> within_scope e tree S p))
     \<and> (\<forall>r m. semQuery e qparams (Some tree) = Inr r \<and> m \<in> set (elements r) \<longrightarrow>
        (\<exists>p n s. subtree tree p = Some n \<and> m = queryMatch e n (path_from [] tree p) s
                 \<and> within_scope e tree S p))
     \<and> (\<forall>ru rs. 1 \<le> max_nodes params \<and> cursor params = None
           \<and> semSnapshot e (params\<lparr>within_sid := None\<rparr>) (Some tree) = Inr ru
           \<and> next_cursor ru = None \<and> semSnapshot e params (Some tree) = Inr rs \<longrightarrow>
         set (pageNodes rs) \<subseteq> set (pageNodes ru))
     \<and> (\<forall>ru rs. multiple qparams
           \<and> length (matches (searchNode e (qparams\<lparr>q_within_sid := None\<rparr>) tree [] False
                                query_init)) \<le> q_max qparams
           \<and> semQuery e (qparams\<lparr>q_within_sid := None\<rparr>) (Some tree) = Inr ru
           \<and> semQuery e qparams (Some tree) = Inr rs \<longrightarrow>
         set (elements rs) \<subseteq> set (elements ru))
     \<and> (length (nodes (processNode e (params\<lparr>within_sid := None\<rparr>) tree [] False snapshot_init))
           < max_nodes params * 5 \<longrightarrow>
         set (nodes (processNode e params tree [] False snapshot_init))
           \<subseteq> set (nodes (processNode e (params\<lparr>within_sid := None\<rparr>) tree [] False snapshot_init)))
     \<and> (thrown (searchNode e (qparams\<lparr>q_within_sid := None\<rparr>) tree [] False query_init) = None \<longrightarrow>
         thrown (searchNode e qparams tree [] False query_init) = None
         \<and> set (matches (searchNode e qparams tree [] False query_init))
             \<subseteq> set (matches (searchNode e (qparams\<lparr>q_within_sid := None\<rparr>) tree [] False
                                query_init)))"
proof (intro conjI allI impI)
  fix r nd
  assume a: "semSnapshot e params (Some tree) = Inr r \<and> nd \<in> set (pageNodes r)"
  with page_subset[of e params tree r]
  have "nd \<in> set (nodes (processNode e params tree [] False snapshot_init))" by blast
  from processNode_stems(1)[OF assms(1,3) this]
  have "stems_from (\<lambda>n path x. x = nodeData e params n path) e S tree [] False nd"
    by (simp add: snapshot_init_def)
  from stems_top[OF this]
  show "\<exists>p n. subtree tree p = Some n \<and> nd = nodeData e params n (path_from [] tree p)
               \<and> within_scope e tree S p" .
next
  fix r m
  assume a: "semQuery e qparams (Some tree) = Inr r \<and> m \<in> set (elements r)"
  with elements_subset[of e qparams tree r]
  have "m \<in> set (matches (searchNode e qparams tree [] False query_init))" by blast
  from searchNode_stems(1)[OF assms(2,3) this]
  have "stems_from (\<lambda>n path x. \<exists>s. x = queryMatch e n path s) e S tree [] False m"
    by (simp add: query_init_def)
  from stems_top[OF this]
  show "\<exists>p n s. subtree tree p = Some n \<and> m = queryMatch e n (path_from [] tree p) s
                 \<and> within_scope e tree S p" by blast
next
  fix ru rs
  assume "1 \<le> max_nodes params \<and> cursor params = None
           \<and> semSnapshot e (params\<lparr>within_sid := None\<rparr>) (Some tree) = Inr ru
           \<and> next_cursor ru = None \<and> semSnapshot e params (Some tree) = Inr rs"
  then show "set (pageNodes rs) \<subseteq> set (pageNodes ru)"
    using returned_scoped_nodes_subset[of params e tree ru rs] by blast
next
  fix ru rs
  assume "multiple qparams
           \<and> length (matches (searchNode e (qparams\<lparr>q_within_sid := None\<rparr>) tree [] False
                                query_init)) \<le> q_max qparams
           \<and> semQuery e (qparams\<lparr>q_within_sid := None\<rparr>) (Some tree) = Inr ru
           \<and> semQuery e qparams (Some tree) = Inr rs"
  then show "set (elements rs) \<subseteq> set (elements ru)"
    using returned_scoped_matches_subset[of qparams e tree ru rs] by blast
next
  assume "length (nodes (processNode e (params\<lparr>within_sid := None\<rparr>) tree [] False snapshot_init))
           < max_nodes params * 5"
  then have "subseq (nodes (processNode e params tree [] False snapshot_init))
           (nodes (processNode e (params\<lparr>within_sid := None\<rparr>) tree [] False snapshot_init))"
    by (rule scoped_nodes_subset)
  then show "set (nodes (processNode e params tree [] False snapshot_init))
           \<subseteq> set (nodes (processNode e (params\<lparr>within_sid := None\<rparr>) tree [] False snapshot_init))"
    by (rule subseq_set_subset)
next
  assume u: "thrown (searchNode e (qparams\<lparr>q_within_sid := None\<rparr>) tree [] False query_init) = None"
  then show "thrown (searchNode e qparams tree [] False query_init) = None"
    by (rule scoped_matches_subset)
  from u have "subseq (matches (searchNode e qparams tree [] False query_init))
           (matches (searchNode e (qparams\<lparr>q_within_sid := None\<rparr>) tree [] False query_init))"
    by (rule scoped_matches_subset)
  then show "set (matches (searchNode e qparams tree [] False query_init))
             \<subseteq> set (matches (searchNode e (qparams\<lparr>q_within_sid := None\<rparr>) tree [] False
                                query_init))"
    by (rule subseq_set_subset)
qed

theorem scope_restriction_amended_witness:
  "within_sid scoped_snapshot = Some submit_sid
   \<and> q_within_sid scoped_query = Some submit_sid
   \<and> submit_sid \<noteq> []
   \<and> semSnapshot example_env scoped_snapshot (Some loginForm)
       = Inr \<lparr>snapshot_id = ''snap_k3x9ab'', pageNodes = [submit_data], next_cursor = None\<rparr>
   \<and> (\<exists>p n. subtree loginForm p = Some n
          \<and> submit_data = nodeData example_env scoped_snapshot n (path_from [] loginForm p)
          \<and> within_scope example_env loginForm submit_sid p)
   \<and> semQuery example_env scoped_query (Some loginForm)
       = Inr \<lparr>sids = [submit_sid], elements = [submit_match], r_explanations = None\<rparr>
   \<and> (\<exists>p n s. subtree loginForm p = Some n
          \<and> submit_match = queryMatch example_env n (path_from [] loginForm p) s
          \<and> within_scope example_env loginForm submit_sid p)
   \<and> 1 \<le> max_nodes scoped_snapshot
   \<and> cursor scoped_snapshot = None
   \<and> semSnapshot example_env (scoped_snapshot\<lparr>within_sid := None\<rparr>) (Some loginForm)
       = Inr \<lparr>snapshot_id = ''snap_k3x9ab'',
              pageNodes = [login_data, submit_data, cancel_data], next_cursor = None\<rparr>
   \<and> set [submit_data] \<subseteq> set [login_data, submit_data, cancel_data]
   \<and> multiple scoped_query
   \<and> length (matches (searchNode example_env (scoped_query\<lparr>q_within_sid := None\<rparr>) loginForm
                        [] False query_init)) \<le> q_max scoped_query
   \<and> semQuery example_env (scoped_query\<lparr>q_within_sid := None\<rparr>) (Some loginForm)
       = Inr \<lparr>sids = [submit_sid, ''sid_WQ3bgnSY8c3WVjIp5kBCXIee''],
              elements = [submit_match, cancel_match], r_explanations = None\<rparr>
   \<and> set [submit_match] \<subseteq> set [submit_match, cancel_match]
   \<and> length (nodes (processNode example_env (scoped_snapshot\<lparr>within_sid := None\<rparr>) loginForm
                      [] False snapshot_init)) < max_nodes scoped_snapshot * 5
   \<and> set (nodes (processNode example_env scoped_snapshot loginForm [] False snapshot_init))
       \<subseteq> set (nodes (processNode example_env (scoped_snapshot\<lparr>within_sid := None\<rparr>) loginForm
                        [] False snapshot_init))
   \<and> thrown (searchNode example_env (scoped_query\<lparr>q_within_sid := None\<rparr>) loginForm [] False
               query_init) = None
   \<and> thrown (searchNode example_env scoped_query loginForm [] False query_init) = None
   \<and> set (matches (searchNode example_env scoped_query loginForm [] False query_init))
       \<subseteq> set (matches (searchNode example_env (scoped_query\<lparr>q_within_sid := None\<rparr>) loginForm
                          [] False query_init))"
proof -
  have h1: "within_sid scoped_snapshot = Some submit_sid"
    by (simp add: scoped_snapshot_def)
  have h2: "q_within_sid scoped_query = Some submit_sid"
    by (simp add: scoped_query_def)
  have h3: "submit_sid \<noteq> []"
    by (simp add: submit_sid_def)
  have s1: "semSnapshot example_env scoped_snapshot (Some loginForm)
       = Inr \<lparr>snapshot_id = ''snap_k3x9ab'', pageNodes = [submit_data], next_cursor = None\<rparr>"
    by code_simp
  have q1: "semQuery example_env scoped_query (Some loginForm)
       = Inr \<lparr>sids = [submit_sid], elements = [submit_match], r_explanations = None\<rparr>"
    by code_simp
  have m1: "1 \<le> max_nodes scoped_snapshot"
    by (simp add: scoped_snapshot_def small_pages_def)
  have n1: "cursor scoped_snapshot = None"
    by (simp add: scoped_snapshot_def small_pages_def snapshot_defaults_def)
  have u1: "semSnapshot example_env (scoped_snapshot\<lparr>within_sid := None\<rparr>) (Some loginForm)
       = Inr \<lparr>snapshot_id = ''snap_k3x9ab'',
              pageNodes = [login_data, submit_data, cancel_data], next_cursor = None\<rparr>"
    by code_simp
  have m2: "multiple scoped_query"
    by (simp add: scoped_query_def)
  have l2: "length (matches (searchNode example_env (scoped_query\<lparr>q_within_sid := None\<rparr>) loginForm
                        [] False query_init)) \<le> q_max scoped_query"
    by code_simp
  have u2: "semQuery example_env (scoped_query\<lparr>q_within_sid := None\<rparr>) (Some loginForm)
       = Inr \<lparr>sids = [submit_sid, ''sid_WQ3bgnSY8c3WVjIp5kBCXIee''],
              elements = [submit_match, cancel_match], r_explanations = None\<rparr>"
    by code_simp
  have l1: "length (nodes (processNode example_env (scoped_snapshot\<lparr>within_sid := None\<rparr>) loginForm
                      [] False snapshot_init)) < max_nodes scoped_snapshot * 5"
    by code_simp
  have t1: "thrown (searchNode example_env (scoped_query\<lparr>q_within_sid := None\<rparr>) loginForm [] False
               query_init) = None"
    by code_simp
  note T = scope_restriction_amended[OF h1 h2 h3, of example_env loginForm]
  from T s1 have c1: "\<exists>p n. subtree loginForm p = Some n
          \<and> submit_data = nodeData example_env scoped_snapshot n (path_from [] loginForm p)
          \<and> within_scope example_env loginForm submit_sid p"
    by simp
  from T q1 have c2: "\<exists>p n s. subtree loginForm p = Some n
          \<and> submit_match = queryMatch example_env n (path_from [] loginForm p) s
          \<and> within_scope example_env loginForm submit_sid p"
    by simp
  from T m1 n1 u1 s1 have c3: "set [submit_data] \<subseteq> set [login_data, submit_data, cancel_data]"
    by simp
  from T m2 l2 u2 q1 have c4: "set [submit_match] \<subseteq> set [submit_match, cancel_match]"
    by simp
  from T l1 have c5: "set (nodes (processNode example_env scoped_snapshot loginForm [] False snapshot_init))
       \<subseteq> set (nodes (processNode example_env (scoped_snapshot\<lparr>within_sid := None\<rparr>) loginForm
                        [] False snapshot_init))"
    by blast
  from T t1 have c6: "thrown (searchNode example_env scoped_query loginForm [] False query_init) = None
   \<and> set (matches (searchNode example_env scoped_query loginForm [] False query_init))
       \<subseteq> set (matches (searchNode example_env (scoped_query\<lparr>q_within_sid := None\<rparr>) loginForm
                          [] False query_init))"
    by blast
  from h1 h2 h3 s1 q1 m1 n1 u1 m2 l2 u2 l1 t1 c1 c2 c3 c4 c5 c6 show ?thesis
    by blast
qed

text \<open>
  Claim C1 as stated fails for the returned page and for the returned matches. With one
  node per page, the snapshot scoped to the Submit button returns that button, and the
  unscoped snapshot returns the form. With \<open>multiple\<close> off, the query for role \<open>button\<close> and
  label \<open>Cancel\<close> scoped to the Submit button returns the Submit button, and the unscoped
  query returns the Cancel button.
\<close>

theorem scope_restriction_fails_as_stated:
  "\<not> returned_nodes (semSnapshot example_env (one_per_page\<lparr>within_sid := Some submit_sid\<rparr>)
                          (Some loginForm))
       \<subseteq> returned_nodes (semSnapshot example_env one_per_page (Some loginForm))
   \<and> \<not> returned_matches
         (semQuery example_env (scoped_query\<lparr>q_label := Some ''Cancel'', multiple := False\<rparr>)
            (Some loginForm))
       \<subseteq> returned_matches
           (semQuery example_env
              (scoped_query\<lparr>q_label := Some ''Cancel'', multiple := False, q_within_sid := None\<rparr>)
              (Some loginForm))"
  by code_simp

text \<open>
  The two provisos are needed. The early return at \<open>max_nodes * 5\<close> can cut the unscoped
  walk short of a subtree that the scoped walk reaches: with \<open>max_nodes = 1\<close>, the walk of
  \<open>menu\<close> scoped to its group materializes the entry \<open>E\<close>, which the unscoped walk never
  visits. And an empty \<open>within_sid\<close> counts as none: all nodes are returned, and no node
  has the SID \<open>""\<close>.
\<close>

lemma early_return_breaks_subset:
  "\<not> set (nodes (processNode example_env (one_per_page\<lparr>within_sid := Some more_sid\<rparr>) menu
                    [] False snapshot_init))
       \<subseteq> set (nodes (processNode example_env one_per_page menu [] False snapshot_init))"
  by code_simp

lemma empty_scope_is_no_scope:
  "login_data \<in> returned_nodes (semSnapshot example_env (small_pages\<lparr>within_sid := Some []\<rparr>)
                                  (Some loginForm))
   \<and> \<not> list_ex (within_scope example_env loginForm []) [[], [0], [1]]"
  by code_simp

section \<open>Where the code departs from its own intent\<close>

lemma parseInt_abc: "parseInt ''abc'' = NaN"
  by (simp add: parseInt_def isWhiteSpace_def isDigit_def)

text \<open>
  Claim C4 says that a malformed cursor is treated as offset 0. The source wraps
  \<open>parseInt\<close> in \<open>try ... catch { startIndex = 0 }\<close>, but \<open>parseInt\<close> returns \<open>NaN\<close> and
  does not throw: with the cursor \<open>abc\<close> the call succeeds with an empty page and no
  next cursor, for every tree, where the call at offset 0 returns the three nodes of
  \<open>loginForm\<close>.
\<close>

theorem malformed_cursor_not_reset:
  "semSnapshot e (params\<lparr>cursor := Some ''abc''\<rparr>) (Some tree)
     = Inr \<lparr>snapshot_id = ''snap_'' @ random_token e, pageNodes = [], next_cursor = None\<rparr>
   \<and> semSnapshot example_env (small_pages\<lparr>cursor := Some ''abc''\<rparr>) (Some loginForm)
     = Inr \<lparr>snapshot_id = ''snap_k3x9ab'', pageNodes = [], next_cursor = None\<rparr>
   \<and> semSnapshot example_env (small_pages\<lparr>cursor := None\<rparr>) (Some loginForm)
     = Inr \<lparr>snapshot_id = ''snap_k3x9ab'', pageNodes = [login_data, submit_data, cancel_data],
            next_cursor = None\<rparr>"
proof -
  have "semSnapshot e (params\<lparr>cursor := Some ''abc''\<rparr>) (Some tree)
     = Inr \<lparr>snapshot_id = ''snap_'' @ random_token e, pageNodes = [], next_cursor = None\<rparr>"
    by (simp add: semSnapshot_Some startIndex_def truthy_def parseInt_abc js_add_def js_min_def
        js_less_def slice_def sliceIndex_def)
  moreover have "semSnapshot example_env (small_pages\<lparr>cursor := Some ''abc''\<rparr>) (Some loginForm)
     = Inr \<lparr>snapshot_id = ''snap_k3x9ab'', pageNodes = [], next_cursor = None\<rparr>"
    by code_simp
  moreover have "semSnapshot example_env (small_pages\<lparr>cursor := None\<rparr>) (Some loginForm)
     = Inr \<lparr>snapshot_id = ''snap_k3x9ab'', pageNodes = [login_data, submit_data, cancel_data],
            next_cursor = None\<rparr>"
    by code_simp
  ultimately show ?thesis by blast
qed

text \<open>
  Claim C6 says that \<open>explanations[i]\<close> explains the \<open>i\<close>-th returned match. The source
  sorts \<open>matches\<close> and leaves \<open>explanations\<close> in traversal order. On \<open>loginForm\<close>, the query
  for role \<open>button\<close> and label \<open>Cancel\<close> ranks the Cancel button (score 90) before the
  Submit button (score 50), and the first explanation is still that of the Submit
  button, which matched on the role alone; with \<open>multiple\<close> off, the one returned match
  is the Cancel button and the one explanation is that of the Submit button.
\<close>

theorem explanations_follow_traversal_order:
  "semQuery example_env
     (query_defaults\<lparr>q_role := Some ''button'', q_label := Some ''Cancel'', multiple := True,
        explain := True\<rparr>) (Some loginForm)
     = Inr \<lparr>sids = [''sid_WQ3bgnSY8c3WVjIp5kBCXIee'', ''sid_zvvblJWm6zcEm2HA6aoC16v5''],
            elements =
              [\<lparr>m_sid = ''sid_WQ3bgnSY8c3WVjIp5kBCXIee'', m_role = ''button'',
                 m_label = ''Cancel'', confidence = 9 / 10, score = 90\<rparr>,
               \<lparr>m_sid = ''sid_zvvblJWm6zcEm2HA6aoC16v5'', m_role = ''button'',
                 m_label = ''Submit'', confidence = 1 / 2, score = 50\<rparr>],
            r_explanations =
              Some [Some ''role=button'', Some (''role=button,label'' @ approx @ ''Cancel'')]\<rparr>
   \<and> semQuery example_env
     (query_defaults\<lparr>q_role := Some ''button'', q_label := Some ''Cancel'', explain := True\<rparr>)
     (Some loginForm)
     = Inr \<lparr>sids = [''sid_WQ3bgnSY8c3WVjIp5kBCXIee''],
            elements =
              [\<lparr>m_sid = ''sid_WQ3bgnSY8c3WVjIp5kBCXIee'', m_role = ''button'',
                 m_label = ''Cancel'', confidence = 9 / 10, score = 90\<rparr>],
            r_explanations = Some [Some ''role=button'']\<rparr>"
  by code_simp

end
